theory Spec2Isabelle
  imports Main
begin

section \<open>String primitives of the Python runtime\<close>

text \<open>
  Lines are \<^typ>\<open>string\<close>s, so a character is one of the 256 code points of Latin-1.
  On these code points Python's \<^verbatim>\<open>str.isspace\<close> (used by \<^verbatim>\<open>lstrip()\<close>,
  \<^verbatim>\<open>rstrip()\<close>, \<^verbatim>\<open>split()\<close> and by \<^verbatim>\<open>\s\<close> in a \<^verbatim>\<open>str\<close> pattern) holds
  of 9..13, 28..32, 133 and 160, and \<^verbatim>\<open>\d\<close> matches the ten ASCII digits only.
\<close>

definition is_space :: "char \<Rightarrow> bool" where
  "is_space c =
     (let n = (of_char c :: nat)
      in (9 \<le> n \<and> n \<le> 13) \<or> (28 \<le> n \<and> n \<le> 32) \<or> n = 133 \<or> n = 160)"

definition is_digit :: "char \<Rightarrow> bool" where
  "is_digit c = (let n = (of_char c :: nat) in 48 \<le> n \<and> n \<le> 57)"

definition lstrip :: "string \<Rightarrow> string" where
  "lstrip s = dropWhile is_space s"

definition rstrip :: "string \<Rightarrow> string" where
  "rstrip s = rev (dropWhile is_space (rev s))"

definition strip :: "string \<Rightarrow> string" where
  "strip s = lstrip (rstrip s)"

text \<open>\<^verbatim>\<open>s.startswith(p)\<close> and \<^verbatim>\<open>p in s\<close>.\<close>

fun startswith :: "string \<Rightarrow> string \<Rightarrow> bool" where
  "startswith s [] = True"
| "startswith [] (p # ps) = False"
| "startswith (c # cs) (p # ps) = (c = p \<and> startswith cs ps)"

fun contains :: "string \<Rightarrow> string \<Rightarrow> bool" where
  "contains [] p = (p = [])"
| "contains (c # cs) p = (startswith (c # cs) p \<or> contains cs p)"

text \<open>\<^verbatim>\<open>"  " * n\<close>.\<close>

definition spaces :: "nat \<Rightarrow> string" where
  "spaces n = concat (replicate n ''  '')"

section \<open>The list predicates of \<^verbatim>\<open>WordDocumentParser\<close>\<close>

text \<open>
  \<^verbatim>\<open>re.match(r'^\d+\.', s)\<close>: the greedy run of digits is not empty and a dot follows it
  (giving back a digit never helps, the next character would be a digit).
\<close>

definition match_number :: "string \<Rightarrow> bool" where
  "match_number s = (takeWhile is_digit s \<noteq> [] \<and> startswith (dropWhile is_digit s) ''.'')"

text \<open>
  \<^verbatim>\<open>re.sub(r'^\d+\.\s*', '', s)\<close>: the pattern is anchored, so at most the one match at
  the start is removed.
\<close>

definition sub_number_prefix :: "string \<Rightarrow> string" where
  "sub_number_prefix s =
     (if match_number s then dropWhile is_space (drop 1 (dropWhile is_digit s)) else s)"

definition is_marker :: "char \<Rightarrow> bool" where
  "is_marker c = (c = CHR ''*'' \<or> c = CHR ''-'' \<or> c = CHR ''+'')"

definition is_list_item :: "string \<Rightarrow> bool" where
  "is_list_item line =
     (let stripped = lstrip line
      in stripped \<noteq> [] \<and>
         (startswith stripped ''*'' \<or> startswith stripped ''-'' \<or> startswith stripped ''+''
          \<or> match_number stripped))"

definition get_indent_level :: "string \<Rightarrow> nat" where
  "get_indent_level line = length line - length (lstrip line)"

text \<open>
  The two class constants \<^verbatim>\<open>LIST_BULLET_PATTERN = ^\s*[\*\-\+]\s\<close> and
  \<^verbatim>\<open>LIST_NUMBER_PATTERN = ^\s*\d+\.\s\<close>, as \<^verbatim>\<open>pattern.match(line)\<close>. No method of
  the class uses them. The greedy \<^verbatim>\<open>\s*\<close> takes the whole leading run of blanks:
  giving one back would put a blank where the marker or the first digit has to be.
\<close>

definition LIST_BULLET_PATTERN :: "string \<Rightarrow> bool" where
  "LIST_BULLET_PATTERN line =
     (case lstrip line of
        m # w # _ \<Rightarrow> is_marker m \<and> is_space w
      | _ \<Rightarrow> False)"

definition LIST_NUMBER_PATTERN :: "string \<Rightarrow> bool" where
  "LIST_NUMBER_PATTERN line =
     (let s = lstrip line
      in takeWhile is_digit s \<noteq> [] \<and>
         (case dropWhile is_digit s of
            d # w # _ \<Rightarrow> d = CHR ''.'' \<and> is_space w
          | _ \<Rightarrow> False))"

section \<open>\<^verbatim>\<open>_process_list_block\<close>\<close>

text \<open>
  The exceptions of a run: \<^verbatim>\<open>ValueError\<close> of \<^verbatim>\<open>min\<close> on an empty sequence, \<^verbatim>\<open>KeyError\<close> of a
  dictionary, and \<^verbatim>\<open>re.error\<close> and \<^verbatim>\<open>IndexError\<close>, which \<^verbatim>\<open>re.sub\<close> raises for a replacement
  or a pattern it does not accept.
\<close>

datatype error = ValueError | KeyError | IndexError | ReError

text \<open>
  The dictionary \<^verbatim>\<open>indent_to_level\<close> is an association list in insertion order.
  First pass: every list item whose indentation is not yet a key gets the next level.
\<close>

fun first_pass :: "string list \<Rightarrow> (nat \<times> nat) list \<Rightarrow> nat \<Rightarrow> (nat \<times> nat) list" where
  "first_pass [] indent_to_level current_level = indent_to_level"
| "first_pass (line # lines) indent_to_level current_level =
     (if is_list_item line then
        (let indent = get_indent_level line
         in if map_of indent_to_level indent = None
            then first_pass lines (indent_to_level @ [(indent, current_level)]) (current_level + 1)
            else first_pass lines indent_to_level current_level)
      else first_pass lines indent_to_level current_level)"

text \<open>\<^verbatim>\<open>abs(x - indent)\<close> on the natural numbers.\<close>

definition abs_diff :: "nat \<Rightarrow> nat \<Rightarrow> nat" where
  "abs_diff x indent = (if indent \<le> x then x - indent else indent - x)"

text \<open>
  \<^verbatim>\<open>min(xs, key=...)\<close>: the first element whose key is minimal; \<^verbatim>\<open>ValueError\<close> on an
  empty sequence.
\<close>

fun py_min :: "nat list \<Rightarrow> (nat \<Rightarrow> nat) \<Rightarrow> error + nat" where
  "py_min [] key = Inl ValueError"
| "py_min (x # xs) key = Inr (foldl (\<lambda>best y. if key y < key best then y else best) x xs)"

text \<open>The content of a list item: bullets and the blank after them, or the number, go.\<close>

definition item_content :: "string \<Rightarrow> string" where
  "item_content stripped =
     (let content = lstrip (dropWhile is_marker stripped)
      in if match_number stripped then sub_number_prefix stripped else content)"

definition LIST_COMMENT :: string where
  "LIST_COMMENT = ''<!-- Type: List Block -->''"

text \<open>The body of the second loop, for one line.\<close>

definition normalize_line :: "(nat \<times> nat) list \<Rightarrow> nat list \<Rightarrow> string \<Rightarrow> error + string" where
  "normalize_line indent_to_level indent_levels line =
     (let stripped = lstrip line
      in if stripped = [] then Inr line
         else
           (let indent = get_indent_level line
            in case py_min indent_levels (\<lambda>x. abs_diff x indent) of
                 Inl e \<Rightarrow> Inl e
               | Inr closest_indent \<Rightarrow>
                   (case map_of indent_to_level closest_indent of
                      None \<Rightarrow> Inl KeyError
                    | Some level \<Rightarrow>
                        (if is_list_item line
                         then Inr (spaces level @ ''* '' @ item_content stripped)
                         else Inr (spaces (level + 1) @ stripped)))))"

fun second_pass :: "(nat \<times> nat) list \<Rightarrow> nat list \<Rightarrow> string list \<Rightarrow> error + string list" where
  "second_pass indent_to_level indent_levels [] = Inr []"
| "second_pass indent_to_level indent_levels (line # lines) =
     (case normalize_line indent_to_level indent_levels line of
        Inl e \<Rightarrow> Inl e
      | Inr out \<Rightarrow>
          (case second_pass indent_to_level indent_levels lines of
             Inl e \<Rightarrow> Inl e
           | Inr result \<Rightarrow> Inr (out # result)))"

definition process_list_block :: "string list \<Rightarrow> error + string list" where
  "process_list_block lines =
     (if lines = [] then Inr []
      else
        (let indent_to_level = first_pass lines [] 0;
             indent_levels = sort (map fst indent_to_level)
         in case second_pass indent_to_level indent_levels lines of
              Inl e \<Rightarrow> Inl e
            | Inr result \<Rightarrow> Inr (result @ [LIST_COMMENT])))"

section \<open>\<^verbatim>\<open>_add_metadata\<close>\<close>

text \<open>\<^verbatim>\<open>HEADING_PATTERN = ^#+\s\<close>: a run of hashes, then a blank.\<close>

definition HEADING_PATTERN :: "string \<Rightarrow> bool" where
  "HEADING_PATTERN line =
     (takeWhile (\<lambda>c. c = CHR ''#'') line \<noteq> [] \<and>
      (case dropWhile (\<lambda>c. c = CHR ''#'') line of
         w # _ \<Rightarrow> is_space w
       | [] \<Rightarrow> False))"

text \<open>\<^verbatim>\<open>len(line.split()[0])\<close> for a line that has a first word.\<close>

definition first_word_len :: "string \<Rightarrow> nat" where
  "first_word_len line = length (takeWhile (\<lambda>c. \<not> is_space c) (lstrip line))"

text \<open>The decimal numeral an f-string prints for a number.\<close>

fun str_nat :: "nat \<Rightarrow> string" where
  "str_nat n =
     (if n < 10 then [''0123456789'' ! n]
      else str_nat (n div 10) @ [''0123456789'' ! (n mod 10)])"

declare str_nat.simps [simp del]

fun add_metadata :: "string \<Rightarrow> bool \<Rightarrow> string list \<times> string option" where
  "add_metadata line0 in_list =
     (let line = rstrip line0
      in if line = [] then ([line], None)
         else if HEADING_PATTERN line then
           (let level = first_word_len line
            in ([line, ''<!-- Type: Heading '' @ str_nat level @ '' -->''],
                Some (''heading_'' @ str_nat level)))
         else if is_list_item line then ([line], Some ''list_item'')
         else if startswith (strip line) ''|'' \<and> contains line ''-|-'' then
           ([line, ''<!-- Type: Table -->''], Some ''table_separator'')
         else if startswith (strip line) ''|'' then ([line], Some ''table_row'')
         else if contains line ''!['' \<and> contains line '']('' then
           ([line, ''<!-- Type: Image -->''], Some ''image'')
         else if strip line \<noteq> [] \<and> \<not> in_list then
           ([line, ''<!-- Type: Text Body -->''], Some ''text'')
         else ([line], None))"

declare add_metadata.simps [simp del]

text \<open>
  The class constant \<^verbatim>\<open>TABLE_SEPARATOR_PATTERN = \|\s*[-:]+\s*\|\<close>, as
  \<^verbatim>\<open>pattern.search(line)\<close>; no method of the class uses it. After a pipe and the
  blanks that follow it the run of dashes and colons is taken whole, then blanks, then a
  pipe: none of the three runs can give a character to the next.
\<close>

definition separator_here :: "string \<Rightarrow> bool" where
  "separator_here s =
     (let a = dropWhile is_space s;
          run = takeWhile (\<lambda>c. c = CHR ''-'' \<or> c = CHR '':'') a;
          b = dropWhile is_space (dropWhile (\<lambda>c. c = CHR ''-'' \<or> c = CHR '':'') a)
      in run \<noteq> [] \<and> startswith b ''|'')"

fun TABLE_SEPARATOR_PATTERN :: "string \<Rightarrow> bool" where
  "TABLE_SEPARATOR_PATTERN [] = False"
| "TABLE_SEPARATOR_PATTERN (c # cs) =
     ((c = CHR ''|'' \<and> separator_here cs) \<or> TABLE_SEPARATOR_PATTERN cs)"

section \<open>\<^verbatim>\<open>_process_nested_lists\<close>\<close>

text \<open>
  The loop over the lines, with its three variables \<^verbatim>\<open>result\<close>, \<^verbatim>\<open>list_block\<close> and
  \<^verbatim>\<open>in_list\<close>; the empty line list is what remains after the loop. An exception of
  \<^verbatim>\<open>_process_list_block\<close> ends the run.
\<close>

fun nested_loop ::
  "string list \<Rightarrow> string list \<Rightarrow> string list \<Rightarrow> bool \<Rightarrow> error + string list" where
  "nested_loop [] result list_block in_list =
     (if list_block \<noteq> [] then
        (case process_list_block list_block of
           Inl e \<Rightarrow> Inl e
         | Inr block \<Rightarrow> Inr (result @ block))
      else Inr result)"
| "nested_loop (line # lines) result list_block in_list =
     (let stripped = lstrip line
      in if is_list_item line then
           (if \<not> in_list then
              (if list_block \<noteq> [] then
                 (case process_list_block list_block of
                    Inl e \<Rightarrow> Inl e
                  | Inr block \<Rightarrow> nested_loop lines (result @ block) [line] True)
               else nested_loop lines result (list_block @ [line]) True)
            else nested_loop lines result (list_block @ [line]) in_list)
         else if in_list then
           (if stripped \<noteq> [] then nested_loop lines result (list_block @ [line]) in_list
            else
              (if list_block \<noteq> [] then
                 (case process_list_block list_block of
                    Inl e \<Rightarrow> Inl e
                  | Inr block \<Rightarrow> nested_loop lines (result @ block @ [line]) [] False)
               else nested_loop lines (result @ [line]) list_block False))
         else nested_loop lines (result @ fst (add_metadata line False)) list_block in_list)"

definition process_nested_lists :: "string list \<Rightarrow> error + string list" where
  "process_nested_lists lines = nested_loop lines [] [] False"

text \<open>
  The blocks the loop hands to \<^verbatim>\<open>_process_list_block\<close>, in the order of the calls: the
  same loop, recording the argument of each call instead of its result.
\<close>

fun passed_blocks :: "string list \<Rightarrow> string list \<Rightarrow> bool \<Rightarrow> string list list" where
  "passed_blocks [] list_block in_list = (if list_block \<noteq> [] then [list_block] else [])"
| "passed_blocks (line # lines) list_block in_list =
     (let stripped = lstrip line
      in if is_list_item line then
           (if \<not> in_list then
              (if list_block \<noteq> [] then list_block # passed_blocks lines [line] True
               else passed_blocks lines (list_block @ [line]) True)
            else passed_blocks lines (list_block @ [line]) in_list)
         else if in_list then
           (if stripped \<noteq> [] then passed_blocks lines (list_block @ [line]) in_list
            else
              (if list_block \<noteq> [] then list_block # passed_blocks lines [] False
               else passed_blocks lines list_block False))
         else passed_blocks lines list_block in_list)"

section \<open>\<^verbatim>\<open>convert_to_markdown\<close>: tables, images, links\<close>

text \<open>
  The loop that groups table rows: \<open>table_step\<close> is its body on the three variables
  \<^verbatim>\<open>markdown_lines\<close>, \<^verbatim>\<open>current_table\<close> and \<^verbatim>\<open>in_table\<close>, \<open>table_finish\<close> the
  flush after it.
\<close>

definition is_metadata :: "string \<Rightarrow> bool" where
  "is_metadata line = contains line ''<!-- Type:''"

definition is_table_line :: "string \<Rightarrow> bool" where
  "is_table_line line = startswith (strip line) ''|''"

definition table_step ::
  "string list \<times> string list \<times> bool \<Rightarrow> string \<Rightarrow> string list \<times> string list \<times> bool" where
  "table_step st line =
     (case st of (markdown_lines, current_table, in_table) \<Rightarrow>
        if is_metadata line then (markdown_lines @ [line], current_table, in_table)
        else if is_table_line line then
          (if \<not> in_table then (markdown_lines, [line], True)
           else (markdown_lines, current_table @ [line], in_table))
        else
          (if in_table then (markdown_lines @ current_table @ [[]] @ [line], [], False)
           else (markdown_lines @ [line], current_table, in_table)))"

definition table_finish :: "string list \<times> string list \<times> bool \<Rightarrow> string list" where
  "table_finish st =
     (case st of (markdown_lines, current_table, in_table) \<Rightarrow>
        if current_table \<noteq> [] then markdown_lines @ current_table @ [[]] else markdown_lines)"

definition group_tables :: "string list \<Rightarrow> string list" where
  "group_tables processed_lines = table_finish (foldl table_step ([], [], False) processed_lines)"

text \<open>\<^verbatim>\<open>'\n'.join(lines)\<close>.\<close>

fun join_lines :: "string list \<Rightarrow> string" where
  "join_lines [] = []"
| "join_lines [l] = l"
| "join_lines (l # m # ls) = l @ [CHR 0x0A] @ join_lines (m # ls)"

text \<open>
  \<^verbatim>\<open>IMAGE_PATTERN = !\[.*?\]\(data:image[^\)]*\)\<close>. \<open>image_tail\<close> is \<^verbatim>\<open>[^\)]*\)\<close>: up to
  and with the next closing parenthesis. \<open>image_lazy\<close> is everything after \<^verbatim>\<open>![\<close>: the
  lazy \<^verbatim>\<open>.*?\<close> tries the rest of the pattern where it stands and, when that fails,
  takes one more character, any but a newline. Both give the number of characters
  matched.
\<close>

definition image_tail :: "string \<Rightarrow> nat option" where
  "image_tail s =
     (if dropWhile (\<lambda>c. c \<noteq> CHR '')'') s = [] then None
      else Some (length (takeWhile (\<lambda>c. c \<noteq> CHR '')'') s) + 1))"

fun image_lazy :: "string \<Rightarrow> nat option" where
  "image_lazy [] = None"
| "image_lazy (c # cs) =
     (case (if startswith (c # cs) ''](data:image''
            then image_tail (drop 12 (c # cs)) else None) of
        Some n \<Rightarrow> Some (12 + n)
      | None \<Rightarrow> (if c = CHR 0x0A then None else map_option Suc (image_lazy cs)))"

definition image_match :: "string \<Rightarrow> nat option" where
  "image_match s =
     (if startswith s ''!['' then map_option (\<lambda>n. 2 + n) (image_lazy (drop 2 s)) else None)"

text \<open>
  \<^verbatim>\<open>IMAGE_PATTERN.sub(repl, content, 1)\<close> for a replacement without a backslash, which
  \<^verbatim>\<open>re\<close> inserts as it is: the leftmost match is replaced, if any.
\<close>

fun image_sub1 :: "string \<Rightarrow> string \<Rightarrow> string" where
  "image_sub1 repl [] = []"
| "image_sub1 repl (c # cs) =
     (case image_match (c # cs) of
        Some n \<Rightarrow> repl @ drop n (c # cs)
      | None \<Rightarrow> c # image_sub1 repl cs)"

record image_info =
  filename :: string
  content :: string
  content_type :: string

text \<open>
  The substitution of the library. \<^verbatim>\<open>re.sub\<close> reads a replacement that holds a backslash
  as a template, before it looks for a match: an escape or a group reference is
  expanded, and a bad one raises \<^verbatim>\<open>re.error\<close> (or \<^verbatim>\<open>IndexError\<close>) even on a text without
  a match. It reads the identifier that the code puts into the link pattern as a part of
  the pattern, so a character special to \<^verbatim>\<open>re\<close> changes what the pattern matches. What
  the library does in these two cases is not written out here: the conversion takes
  \<^verbatim>\<open>re.sub\<close> as the parameter \<open>re_sub\<close>, with the pattern, the replacement, the text and
  the count, and calls it there. In every other call the functions \<open>image_sub1\<close> and
  \<open>link_sub\<close> give the result of \<^verbatim>\<open>re.sub\<close>.
\<close>

datatype re_pattern = Image_pattern | Link_pattern string

type_synonym re_sub_fun = "re_pattern \<Rightarrow> string \<Rightarrow> string \<Rightarrow> nat \<Rightarrow> error + string"

definition has_backslash :: "string \<Rightarrow> bool" where
  "has_backslash s = (CHR 0x5C \<in> set s)"

text \<open>Letters, digits and the underscore stand for themselves in a pattern.\<close>

definition is_word_char :: "char \<Rightarrow> bool" where
  "is_word_char c =
     (let n = (of_char c :: nat)
      in (48 \<le> n \<and> n \<le> 57) \<or> (65 \<le> n \<and> n \<le> 90) \<or> (97 \<le> n \<and> n \<le> 122) \<or> n = 95)"

definition plain_id :: "string \<Rightarrow> bool" where
  "plain_id rId = list_all is_word_char rId"

text \<open>
  The loop over \<^verbatim>\<open>self.image_map.items()\<close>, a dictionary in insertion order, with
  \<^verbatim>\<open>content = self.IMAGE_PATTERN.sub(image_tag, content, 1)\<close> as its body. An exception
  of \<^verbatim>\<open>re.sub\<close> ends the run.
\<close>

definition image_tag :: "image_info \<Rightarrow> string" where
  "image_tag info = ''![Image](images/'' @ filename info @ '')''"

definition image_sub :: "re_sub_fun \<Rightarrow> string \<Rightarrow> string \<Rightarrow> error + string" where
  "image_sub re_sub repl text =
     (if has_backslash repl then re_sub Image_pattern repl text 1
      else Inr (image_sub1 repl text))"

fun resolve_images ::
  "re_sub_fun \<Rightarrow> (string \<times> image_info) list \<Rightarrow> string \<Rightarrow> error + string" where
  "resolve_images re_sub [] text = Inr text"
| "resolve_images re_sub ((rId, info) # image_map) text =
     (case image_sub re_sub (image_tag info) text of
        Inl e \<Rightarrow> Inl e
      | Inr text1 \<Rightarrow> resolve_images re_sub image_map text1)"

text \<open>
  A relationship of the document part. The loop over the relationships rewrites, for
  each external one, every \<^verbatim>\<open>[text](rel="rId")\<close> to \<^verbatim>\<open>[text](target)\<close>:
  \<^verbatim>\<open>re.sub(rf'\[([^\]]*)\]\(rel="{rId}"\)', f"[\\1]({target_ref})", content)\<close>.
  \<open>link_match\<close> and \<open>link_sub\<close> are this substitution for an identifier of letters,
  digits and underscores and a target without a backslash: the replacement is then the
  bracket, the first group, and the target between parentheses.
\<close>

record relationship =
  rel_rId :: string
  is_external :: bool
  target_ref :: string

definition link_match :: "string \<Rightarrow> string \<Rightarrow> (string \<times> nat) option" where
  "link_match rId s =
     (case s of
        [] \<Rightarrow> None
      | c # cs \<Rightarrow>
          (let group1 = takeWhile (\<lambda>x. x \<noteq> CHR '']'') cs;
               lit = ''](rel='' @ [CHR 0x22] @ rId @ [CHR 0x22] @ '')''
           in if c = CHR ''['' \<and> startswith (dropWhile (\<lambda>x. x \<noteq> CHR '']'') cs) lit
              then Some (group1, 1 + length group1 + length lit)
              else None))"

function link_sub :: "string \<Rightarrow> string \<Rightarrow> string \<Rightarrow> string" where
  "link_sub rId target s =
     (case s of
        [] \<Rightarrow> []
      | c # cs \<Rightarrow>
          (case link_match rId s of
             Some (group1, n) \<Rightarrow>
               ''['' @ group1 @ '']('' @ target @ '')'' @ link_sub rId target (drop n s)
           | None \<Rightarrow> c # link_sub rId target cs))"
  by pat_completeness auto
termination
  by (relation "measure (\<lambda>(rId, target, s). length s)")
     (auto simp: link_match_def Let_def split: if_splits)

declare link_sub.simps [simp del]

text \<open>The replacement \<^verbatim>\<open>f"[\\1]({target_ref})"\<close>, and the body of the loop.\<close>

definition link_template :: "string \<Rightarrow> string" where
  "link_template target = ''['' @ [CHR 0x5C] @ ''1]('' @ target @ '')''"

definition link_step :: "re_sub_fun \<Rightarrow> string \<Rightarrow> string \<Rightarrow> string \<Rightarrow> error + string" where
  "link_step re_sub rId target text =
     (if plain_id rId \<and> \<not> has_backslash target then Inr (link_sub rId target text)
      else re_sub (Link_pattern rId) (link_template target) text 0)"

fun resolve_links :: "re_sub_fun \<Rightarrow> relationship list \<Rightarrow> string \<Rightarrow> error + string" where
  "resolve_links re_sub [] text = Inr text"
| "resolve_links re_sub (rel # rels) text =
     (if is_external rel then
        (case link_step re_sub (rel_rId rel) (target_ref rel) text of
           Inl e \<Rightarrow> Inl e
         | Inr text1 \<Rightarrow> resolve_links re_sub rels text1)
      else resolve_links re_sub rels text)"

text \<open>
  The part of \<^verbatim>\<open>convert_to_markdown\<close> after the document has been read: from the lines
  of the raw markdown, the image map and the relationships to the final text.
\<close>

definition convert_core ::
  "re_sub_fun \<Rightarrow> string list \<Rightarrow> (string \<times> image_info) list \<Rightarrow> relationship list
     \<Rightarrow> error + string" where
  "convert_core re_sub lines image_map rels =
     (case process_nested_lists lines of
        Inl e \<Rightarrow> Inl e
      | Inr processed_lines \<Rightarrow>
          (case resolve_images re_sub image_map (join_lines (group_tables processed_lines)) of
             Inl e \<Rightarrow> Inl e
           | Inr text1 \<Rightarrow> resolve_links re_sub rels text1))"

section \<open>Notions used to state the properties\<close>

text \<open>
  A prefix of the line stream leaves no table open: its last line that is not a
  metadata comment, if there is one, is not a table line.
\<close>

definition no_open_table :: "string list \<Rightarrow> bool" where
  "no_open_table pre =
     (case rev (filter (\<lambda>l. \<not> is_metadata l) pre) of
        [] \<Rightarrow> True
      | l # _ \<Rightarrow> \<not> is_table_line l)"

text \<open>
  The order in which the indentations of the list items of a block are first seen, from
  top to bottom, and the level of an indentation: its place in that order, from 0.
\<close>

fun first_seen :: "nat list \<Rightarrow> nat list" where
  "first_seen [] = []"
| "first_seen (w # ws) = w # filter (\<lambda>v. v \<noteq> w) (first_seen ws)"

definition item_widths :: "string list \<Rightarrow> nat list" where
  "item_widths lines = map get_indent_level (filter is_list_item lines)"

definition position :: "nat list \<Rightarrow> nat \<Rightarrow> nat" where
  "position ws w = length (takeWhile (\<lambda>v. v \<noteq> w) ws)"

definition level_of :: "string list \<Rightarrow> nat \<Rightarrow> nat" where
  "level_of lines w = position (first_seen (item_widths lines)) w"

text \<open>The invariants of the two loops.\<close>

definition table_inv :: "string list \<times> string list \<times> bool \<Rightarrow> bool" where
  "table_inv st = (case st of (ml, ct, it) \<Rightarrow> it \<longleftrightarrow> ct \<noteq> [])"

definition block_inv :: "string list \<Rightarrow> bool \<Rightarrow> bool" where
  "block_inv list_block in_list =
     ((list_block = [] \<or> is_list_item (hd list_block)) \<and> (in_list \<longrightarrow> list_block \<noteq> []))"

section \<open>Evaluation on concrete lines\<close>

lemmas str_eval = is_space_def is_digit_def lstrip_def rstrip_def strip_def spaces_def
  match_number_def sub_number_prefix_def is_marker_def is_list_item_def get_indent_level_def
  abs_diff_def item_content_def LIST_COMMENT_def normalize_line_def process_list_block_def

lemmas pipe_eval = HEADING_PATTERN_def first_word_len_def add_metadata.simps
  process_nested_lists_def is_metadata_def is_table_line_def table_step_def table_finish_def
  group_tables_def image_tail_def image_match_def image_tag_def image_sub_def
  has_backslash_def is_word_char_def plain_id_def link_step_def convert_core_def

lemmas level_eval = item_widths_def position_def level_of_def

section \<open>The table loop\<close>

lemma table_step_inv: "table_inv st \<Longrightarrow> table_inv (table_step st l)"
  by (cases st) (simp add: table_inv_def table_step_def)

lemma table_fold_inv: "table_inv st \<Longrightarrow> table_inv (foldl table_step st ls)"
  by (induction ls arbitrary: st) (simp_all add: table_step_inv)

lemma table_step_prefix:
  "table_step (ml @ ml', ct, it) l = (case table_step (ml', ct, it) l of (a, b, c) \<Rightarrow> (ml @ a, b, c))"
  by (simp add: table_step_def)

lemma table_fold_prefix:
  "foldl table_step (ml @ ml', ct, it) ls =
     (case foldl table_step (ml', ct, it) ls of (a, b, c) \<Rightarrow> (ml @ a, b, c))"
proof (induction ls arbitrary: ml' ct it)
  case Nil
  show ?case by simp
next
  case (Cons l ls)
  obtain a b c where st: "table_step (ml', ct, it) l = (a, b, c)"
    by (cases "table_step (ml', ct, it) l") auto
  have "table_step (ml @ ml', ct, it) l = (ml @ a, b, c)"
    by (simp add: table_step_prefix st)
  then show ?case using Cons.IH [of a b c] st by simp
qed

lemma table_finish_prefix:
  "table_finish (ml @ a, b, c) = ml @ table_finish (a, b, c)"
  by (simp add: table_finish_def)

lemma closed_state:
  "no_open_table pre \<Longrightarrow> \<exists>ml. foldl table_step ([], [], False) pre = (ml, [], False)"
proof (induction pre rule: rev_induct)
  case Nil
  show ?case by simp
next
  case (snoc x pre)
  obtain ml ct it where st: "foldl table_step ([], [], False) pre = (ml, ct, it)"
    by (cases "foldl table_step ([], [], False) pre") auto
  have inv: "it \<longleftrightarrow> ct \<noteq> []"
    using table_fold_inv [of "([], [], False)" pre] st by (simp add: table_inv_def)
  show ?case
  proof (cases "is_metadata x")
    case True
    then have "no_open_table pre" using snoc.prems by (simp add: no_open_table_def)
    then have "ct = [] \<and> \<not> it" using snoc.IH st by simp
    then have "table_step (ml, ct, it) x = (ml @ [x], [], False)"
      using True by (simp add: table_step_def)
    then show ?thesis using st by simp
  next
    case False
    then have "\<not> is_table_line x" using snoc.prems by (simp add: no_open_table_def)
    then have "\<exists>ml'. table_step (ml, ct, it) x = (ml', [], False)"
      using False inv by (simp add: table_step_def)
    then show ?thesis using st by simp
  qed
qed

lemma group_tables_append:
  assumes "no_open_table pre"
  shows "group_tables (pre @ rest) = group_tables pre @ group_tables rest"
proof -
  obtain ml where st: "foldl table_step ([], [], False) pre = (ml, [], False)"
    using closed_state [OF assms] by blast
  have gp: "group_tables pre = ml"
    unfolding group_tables_def st by (simp add: table_finish_def)
  obtain a b c where r: "foldl table_step ([], [], False) rest = (a, b, c)"
    by (cases "foldl table_step ([], [], False) rest") auto
  have "foldl table_step (ml @ [], [], False) rest = (ml @ a, b, c)"
    using table_fold_prefix [of ml "[]" "[]" False rest] r by simp
  then have "foldl table_step ([], [], False) (pre @ rest) = (ml @ a, b, c)"
    by (simp add: st)
  then have "group_tables (pre @ rest) = ml @ table_finish (a, b, c)"
    unfolding group_tables_def by (simp add: table_finish_prefix)
  moreover have "group_tables rest = table_finish (a, b, c)"
    unfolding group_tables_def r by simp
  ultimately show ?thesis using gp by simp
qed

lemma table_rows_buffered:
  "\<forall>l\<in>set tbl. is_table_line l \<and> \<not> is_metadata l \<Longrightarrow>
   foldl table_step (ml, ct, True) tbl = (ml, ct @ tbl, True)"
  by (induction tbl arbitrary: ct) (simp_all add: table_step_def)

lemma table_rows_reach_output:
  assumes "tbl \<noteq> []"
  shows "\<exists>ys zs. table_finish (foldl table_step (ml, tbl @ ct, True) rest) = ml @ ys @ tbl @ zs
           \<and> (\<forall>y\<in>set ys. is_metadata y)"
proof (induction rest arbitrary: ml ct)
  case Nil
  have "table_finish (ml, tbl @ ct, True) = ml @ [] @ tbl @ (ct @ [[]])"
    using assms by (simp add: table_finish_def)
  then show ?case by (metis empty_iff foldl_Nil list.set(1))
next
  case (Cons x rest)
  show ?case
  proof (cases "is_metadata x")
    case True
    then have st: "table_step (ml, tbl @ ct, True) x = (ml @ [x], tbl @ ct, True)"
      by (simp add: table_step_def)
    obtain ys zs where
      "table_finish (foldl table_step (ml @ [x], tbl @ ct, True) rest) = (ml @ [x]) @ ys @ tbl @ zs"
      "\<forall>y\<in>set ys. is_metadata y"
      using Cons.IH [of "ml @ [x]" ct] by blast
    then have "table_finish (foldl table_step (ml, tbl @ ct, True) (x # rest))
                 = ml @ (x # ys) @ tbl @ zs \<and> (\<forall>y\<in>set (x # ys). is_metadata y)"
      using st True by simp
    then show ?thesis by blast
  next
    case False
    show ?thesis
    proof (cases "is_table_line x")
      case True
      then have st: "table_step (ml, tbl @ ct, True) x = (ml, tbl @ (ct @ [x]), True)"
        using False by (simp add: table_step_def)
      show ?thesis using Cons.IH [of ml "ct @ [x]"] st by simp
    next
      case nt: False
      let ?P = "ml @ tbl @ ct @ [[], x]"
      have st: "table_step (ml, tbl @ ct, True) x = (?P @ [], [], False)"
        using False nt by (simp add: table_step_def)
      obtain a b c where r: "foldl table_step ([], [], False) rest = (a, b, c)"
        by (cases "foldl table_step ([], [], False) rest") auto
      have "foldl table_step (?P @ [], [], False) rest = (?P @ a, b, c)"
        using table_fold_prefix [of ?P "[]" "[]" False rest] r by simp
      then have "table_finish (foldl table_step (ml, tbl @ ct, True) (x # rest))
                   = ml @ [] @ tbl @ (ct @ [[], x] @ table_finish (a, b, c))"
        using st table_finish_prefix [of ?P a b c] by simp
      then show ?thesis by (metis empty_iff list.set(1))
    qed
  qed
qed

lemma table_rows_start:
  assumes "tbl \<noteq> []" "\<forall>l\<in>set tbl. is_table_line l \<and> \<not> is_metadata l"
  shows "foldl table_step (ml, [], False) tbl = (ml, tbl, True)"
proof -
  obtain x xs where t: "tbl = x # xs" using assms(1) by (cases tbl) auto
  have "table_step (ml, [], False) x = (ml, [x], True)"
    using assms(2) t by (simp add: table_step_def)
  then show ?thesis using table_rows_buffered [of xs ml "[x]"] assms(2) t by simp
qed

text \<open>
  C7, as the code has it. A table block is a run of table lines, none of them a
  metadata comment, that starts where no table is open. When a line follows that is
  neither a table line nor a metadata comment, the output is the output of what came
  before, the rows of the block unchanged and in order, one inserted empty line, the
  following line itself, and the output of the rest. When the input ends with the
  block, the rows are followed by one empty line as well.
\<close>

theorem table_block_then_one_inserted_blank:
  assumes "no_open_table pre" and "tbl \<noteq> []"
    and "\<forall>l\<in>set tbl. is_table_line l \<and> \<not> is_metadata l"
    and "\<not> is_table_line l" and "\<not> is_metadata l"
  shows "group_tables (pre @ tbl @ l # post) = group_tables pre @ tbl @ [[]] @ l # group_tables post
       \<and> group_tables (pre @ tbl) = group_tables pre @ tbl @ [[]]"
proof -
  have a: "foldl table_step ([], [], False) tbl = ([], tbl, True)"
    using table_rows_start [OF assms(2,3)] by simp
  have b: "table_step ([], tbl, True) l = (tbl @ [[]] @ [l], [], False)"
    using assms(4,5) by (simp add: table_step_def)
  obtain x y z where r: "foldl table_step ([], [], False) post = (x, y, z)"
    by (cases "foldl table_step ([], [], False) post") auto
  have "foldl table_step ((tbl @ [[]] @ [l]) @ [], [], False) post = ((tbl @ [[]] @ [l]) @ x, y, z)"
    using table_fold_prefix [of "tbl @ [[]] @ [l]" "[]" "[]" False post] r by simp
  then have "group_tables (tbl @ l # post) = tbl @ [[]] @ l # group_tables post"
    using a b r by (simp add: group_tables_def table_finish_def)
  moreover have "group_tables tbl = tbl @ [[]]"
    using a assms(2) by (simp add: group_tables_def table_finish_def)
  ultimately show ?thesis
    using group_tables_append [OF assms(1)] by simp
qed

theorem table_block_then_one_inserted_blank_witness:
  "group_tables ([''intro''] @ [''|a|'', ''|b|''] @ ''text'' # [''|c|''])
     = [''intro'', ''|a|'', ''|b|'', [], ''text'', ''|c|'', []]
   \<and> group_tables ([''intro''] @ [''|a|'', ''|b|'']) = [''intro'', ''|a|'', ''|b|'', []]"
proof -
  have h1: "no_open_table [''intro'']"
    by (simp add: no_open_table_def str_eval pipe_eval)
  have h2: "[''|a|'', ''|b|''] \<noteq> []" by simp
  have h3: "\<forall>l\<in>set [''|a|'', ''|b|'']. is_table_line l \<and> \<not> is_metadata l"
    by (simp add: str_eval pipe_eval)
  have h4: "\<not> is_table_line ''text''" by (simp add: str_eval pipe_eval)
  have h5: "\<not> is_metadata ''text''" by (simp add: str_eval pipe_eval)
  have g1: "group_tables [''intro''] = [''intro'']" by (simp add: str_eval pipe_eval)
  have g2: "group_tables [''|c|''] = [''|c|'', []]" by (simp add: str_eval pipe_eval)
  show ?thesis
    using table_block_then_one_inserted_blank [OF h1 h2 h3 h4 h5, of "[''|c|'']"] g1 g2
    by simp
qed

text \<open>
  C7, as stated, fails: when the line after a table is itself empty, the table is
  followed by two empty lines, the inserted one and the line itself.
\<close>

theorem table_before_blank_line_gets_two_blanks:
  "group_tables [''|a|'', [], ''x''] = [''|a|'', [], [], ''x'']"
  by (simp add: str_eval pipe_eval)

text \<open>
  C10. A line that contains \<^verbatim>\<open><!-- Type:\<close> goes straight to the output: the step of the
  loop appends it and leaves the buffered table and the table flag as they are. So when
  such a line comes after the rows of a table block, it is written before these rows:
  the output is the output of what came before, the comment, and then the output of the
  rows followed by the rest, as if the comment had not stood between them. The rows
  themselves are in the output, unchanged and in order, after the comment, and nothing
  but further metadata comments stands between the comment and the rows.
\<close>

theorem metadata_line_bypasses_table_buffer:
  assumes "is_metadata m"
  shows "table_step (ml, ct, it) m = (ml @ [m], ct, it)
     \<and> (no_open_table pre \<and> tbl \<noteq> [] \<and> (\<forall>l\<in>set tbl. is_table_line l \<and> \<not> is_metadata l) \<longrightarrow>
          group_tables (pre @ tbl @ m # rest) = group_tables pre @ m # group_tables (tbl @ rest)
          \<and> (\<exists>ys zs. group_tables (pre @ tbl @ m # rest) = group_tables pre @ m # ys @ tbl @ zs
                \<and> (\<forall>y\<in>set ys. is_metadata y)))"
proof (intro conjI impI)
  show "table_step (ml, ct, it) m = (ml @ [m], ct, it)"
    using assms by (simp add: table_step_def)
next
  assume h: "no_open_table pre \<and> tbl \<noteq> [] \<and> (\<forall>l\<in>set tbl. is_table_line l \<and> \<not> is_metadata l)"
  have a: "foldl table_step ([], [], False) tbl = ([], tbl, True)"
    using table_rows_start [of tbl "[]"] h by simp
  have b: "table_step ([], tbl, True) m = ([m], tbl, True)"
    using assms by (simp add: table_step_def)
  obtain x y z where r: "foldl table_step ([], tbl, True) rest = (x, y, z)"
    by (cases "foldl table_step ([], tbl, True) rest") auto
  have "foldl table_step ([m] @ [], tbl, True) rest = ([m] @ x, y, z)"
    using table_fold_prefix [of "[m]" "[]" tbl True rest] r by simp
  then have "group_tables (tbl @ m # rest) = m # group_tables (tbl @ rest)"
    using a b r by (simp add: group_tables_def table_finish_def)
  then have eq: "group_tables (pre @ tbl @ m # rest) = group_tables pre @ m # group_tables (tbl @ rest)"
    using group_tables_append [of pre] h by simp
  have "group_tables (tbl @ rest) = table_finish (foldl table_step ([], tbl @ [], True) rest)"
    unfolding group_tables_def using a by simp
  moreover obtain ys zs where
    "table_finish (foldl table_step ([], tbl @ [], True) rest) = [] @ ys @ tbl @ zs"
    "\<forall>y\<in>set ys. is_metadata y"
    using table_rows_reach_output [of tbl "[]" "[]" rest] h by blast
  ultimately have "group_tables (pre @ tbl @ m # rest) = group_tables pre @ m # ys @ tbl @ zs
      \<and> (\<forall>y\<in>set ys. is_metadata y)"
    using eq by simp
  then show "\<exists>ys zs. group_tables (pre @ tbl @ m # rest) = group_tables pre @ m # ys @ tbl @ zs
                \<and> (\<forall>y\<in>set ys. is_metadata y)"
    by blast
  show "group_tables (pre @ tbl @ m # rest) = group_tables pre @ m # group_tables (tbl @ rest)"
    by (rule eq)
qed

theorem metadata_line_bypasses_table_buffer_witness:
  "table_step ([''x''], [''|a|''], True) ''<!-- Type: Table -->''
     = ([''x''] @ [''<!-- Type: Table -->''], [''|a|''], True)
   \<and> group_tables ([''intro''] @ [''|a|'', ''|-|-|''] @ ''<!-- Type: Table -->'' # [''|1|''])
     = [''intro'', ''<!-- Type: Table -->'', ''|a|'', ''|-|-|'', ''|1|'', []]
   \<and> (\<exists>ys zs. group_tables ([''intro''] @ [''|a|'', ''|-|-|''] @ ''<!-- Type: Table -->'' # [''|1|''])
          = group_tables [''intro''] @ ''<!-- Type: Table -->'' # ys @ [''|a|'', ''|-|-|''] @ zs
          \<and> (\<forall>y\<in>set ys. is_metadata y))"
proof -
  have m: "is_metadata ''<!-- Type: Table -->''" by (simp add: str_eval pipe_eval)
  have h: "no_open_table [''intro''] \<and> [''|a|'', ''|-|-|''] \<noteq> []
           \<and> (\<forall>l\<in>set [''|a|'', ''|-|-|'']. is_table_line l \<and> \<not> is_metadata l)"
    by (simp add: no_open_table_def str_eval pipe_eval)
  have g1: "group_tables [''intro''] = [''intro'']" by (simp add: str_eval pipe_eval)
  have g2: "group_tables ([''|a|'', ''|-|-|''] @ [''|1|'']) = [''|a|'', ''|-|-|'', ''|1|'', []]"
    by (simp add: str_eval pipe_eval)
  note t = metadata_line_bypasses_table_buffer [OF m, of "[''x'']" "[''|a|'']" True "[''intro'']"
        "[''|a|'', ''|-|-|'']" "[''|1|'']"]
  from t h have e: "\<exists>ys zs. group_tables ([''intro''] @ [''|a|'', ''|-|-|''] @ ''<!-- Type: Table -->'' # [''|1|''])
          = group_tables [''intro''] @ ''<!-- Type: Table -->'' # ys @ [''|a|'', ''|-|-|''] @ zs
          \<and> (\<forall>y\<in>set ys. is_metadata y)"
    by blast
  show ?thesis using t h g1 g2 e by simp
qed

section \<open>The segmentation loop\<close>

lemma first_pass_keys:
  "fst ` set (first_pass ls d cur) =
     fst ` set d \<union> get_indent_level ` {l \<in> set ls. is_list_item l}"
proof (induction ls arbitrary: d cur)
  case Nil
  show ?case by simp
next
  case (Cons l ls)
  show ?case
  proof (cases "is_list_item l")
    case False
    then show ?thesis using Cons.IH [of d cur] by auto
  next
    case True
    show ?thesis
    proof (cases "map_of d (get_indent_level l) = None")
      case n: True
      have "first_pass (l # ls) d cur = first_pass ls (d @ [(get_indent_level l, cur)]) (cur + 1)"
        using True n by (simp add: Let_def)
      then show ?thesis using Cons.IH [of "d @ [(get_indent_level l, cur)]" "cur + 1"] True by auto
    next
      case n: False
      then have k: "get_indent_level l \<in> fst ` set d" by (simp add: map_of_eq_None_iff)
      have "first_pass (l # ls) d cur = first_pass ls d cur" using True n by (auto simp: Let_def)
      then show ?thesis using Cons.IH [of d cur] True k by auto
    qed
  qed
qed

lemma foldl_min_in:
  "foldl (\<lambda>best y. if key y < key best then y else best) x xs \<in> set (x # xs)"
proof (induction xs arbitrary: x)
  case Nil
  show ?case by simp
next
  case (Cons y ys)
  show ?case using Cons.IH [of "if key y < key x then y else x"] by (auto split: if_splits)
qed

lemma sort_not_Nil: "xs \<noteq> [] \<Longrightarrow> sort xs \<noteq> []"
  using length_sort [of "\<lambda>x. x" xs] by (metis length_0_conv)

lemma py_min_in: "xs \<noteq> [] \<Longrightarrow> \<exists>c\<in>set xs. py_min xs key = Inr c"
  using foldl_min_in [of key "hd xs" "tl xs"] by (cases xs) auto

lemma normalize_line_ok:
  assumes "ks \<noteq> []" "set ks \<subseteq> fst ` set d"
  shows "\<exists>out. normalize_line d ks line = Inr out"
proof -
  obtain c where c: "c \<in> set ks" "py_min ks (\<lambda>x. abs_diff x (get_indent_level line)) = Inr c"
    using py_min_in [OF assms(1)] by blast
  then have "c \<in> fst ` set d" using assms(2) by blast
  then obtain lv where "map_of d c = Some lv"
    by (cases "map_of d c") (auto simp: map_of_eq_None_iff)
  then show ?thesis using c(2) by (simp add: normalize_line_def Let_def)
qed

lemma second_pass_ok:
  assumes "ks \<noteq> []" "set ks \<subseteq> fst ` set d"
  shows "\<exists>r. second_pass d ks ls = Inr r"
proof (induction ls)
  case Nil
  show ?case by simp
next
  case (Cons l ls)
  obtain out where "normalize_line d ks l = Inr out"
    using normalize_line_ok [OF assms] by blast
  then show ?case using Cons.IH by auto
qed

lemma process_list_block_ok:
  assumes "l \<in> set b" "is_list_item l"
  shows "\<exists>out. process_list_block b = Inr out"
proof -
  let ?d = "first_pass b [] 0"
  have "get_indent_level l \<in> fst ` set ?d" using assms by (auto simp: first_pass_keys)
  then have "map fst ?d \<noteq> []" by auto
  then have "set (sort (map fst ?d)) \<subseteq> fst ` set ?d" "sort (map fst ?d) \<noteq> []"
    using sort_not_Nil by auto
  from second_pass_ok [OF this(2) this(1)]
  obtain r where "second_pass ?d (sort (map fst ?d)) b = Inr r" by blast
  then show ?thesis by (simp add: process_list_block_def Let_def)
qed

lemma block_head_ok:
  "b \<noteq> [] \<Longrightarrow> is_list_item (hd b) \<Longrightarrow> \<exists>out. process_list_block b = Inr out"
  using process_list_block_ok [of "hd b" b] by simp

lemma blank_not_item: "lstrip l = [] \<Longrightarrow> \<not> is_list_item l"
  by (simp add: is_list_item_def)

lemma passed_blocks_inv:
  "block_inv lb il \<Longrightarrow> \<forall>b\<in>set (passed_blocks ls lb il). b \<noteq> [] \<and> is_list_item (hd b)"
proof (induction ls arbitrary: lb il)
  case Nil
  then show ?case by (auto simp: block_inv_def)
next
  case (Cons l ls)
  have a: "block_inv (lb @ [l]) True" if "is_list_item l"
    using Cons.prems that by (cases lb) (auto simp: block_inv_def)
  have b: "block_inv [l] True" if "is_list_item l"
    using that by (simp add: block_inv_def)
  have c: "block_inv (lb @ [l]) il" if "il"
    using Cons.prems that by (cases lb) (auto simp: block_inv_def)
  have d: "block_inv [] False" by (simp add: block_inv_def)
  have e: "block_inv lb False" if "\<not> il"
    using Cons.prems that by (simp add: block_inv_def)
  have f: "lb \<noteq> [] \<Longrightarrow> is_list_item (hd lb)" using Cons.prems by (auto simp: block_inv_def)
  show ?case
    using Cons.IH [OF a] Cons.IH [OF b] Cons.IH [OF c] Cons.IH [OF d] Cons.IH [OF e] f
    by (auto simp: Let_def)
qed

lemma nested_loop_ok:
  "block_inv lb il \<Longrightarrow> \<exists>out. nested_loop ls r lb il = Inr out"
proof (induction ls arbitrary: r lb il)
  case Nil
  then show ?case using block_head_ok [of lb] by (auto simp: block_inv_def)
next
  case (Cons l ls)
  have a: "block_inv (lb @ [l]) True" if "is_list_item l"
    using Cons.prems that by (cases lb) (auto simp: block_inv_def)
  have b: "block_inv [l] True" if "is_list_item l"
    using that by (simp add: block_inv_def)
  have c: "block_inv (lb @ [l]) il" if "il"
    using Cons.prems that by (cases lb) (auto simp: block_inv_def)
  have d: "block_inv [] False" by (simp add: block_inv_def)
  have e: "block_inv lb False" if "\<not> il"
    using Cons.prems that by (simp add: block_inv_def)
  have f: "lb \<noteq> [] \<Longrightarrow> \<exists>out. process_list_block lb = Inr out"
    using Cons.prems block_head_ok [of lb] by (auto simp: block_inv_def)
  show ?case
  proof (cases "is_list_item l")
    case True
    show ?thesis
    proof (cases il)
      case il: True
      then show ?thesis using True Cons.IH [OF c] by simp
    next
      case il: False
      show ?thesis
      proof (cases "lb = []")
        case True
        then show ?thesis using \<open>is_list_item l\<close> il Cons.IH [OF b] by simp
      next
        case False
        then obtain out where "process_list_block lb = Inr out" using f by blast
        then show ?thesis using \<open>is_list_item l\<close> il False Cons.IH [OF b] by simp
      qed
    qed
  next
    case False
    show ?thesis
    proof (cases il)
      case il: False
      then show ?thesis using False Cons.IH [OF e] by simp
    next
      case il: True
      show ?thesis
      proof (cases "lstrip l = []")
        case ne: False
        then show ?thesis using False il Cons.IH [OF c] by simp
      next
        case bl: True
        show ?thesis
        proof (cases "lb = []")
          case True
          then show ?thesis using False il bl Cons.IH [OF d] by simp
        next
          case lbne: False
          then obtain out where "process_list_block lb = Inr out" using f by blast
          then show ?thesis using False il bl lbne Cons.IH [OF d] by simp
        qed
      qed
    qed
  qed
qed

text \<open>
  C9. Every block that the segmentation loop hands to \<^verbatim>\<open>_process_list_block\<close> is not
  empty and starts with a list item. For such a block the dictionary of indentations is
  not empty, \<^verbatim>\<open>min\<close> over its sorted keys returns a value for every key function, and
  the normalizer returns a result. So the segmentation never ends in the error of
  \<^verbatim>\<open>min\<close> on an empty sequence, or in any error: it always returns its lines.
\<close>

theorem segmentation_blocks_start_with_item:
  "(\<forall>b\<in>set (passed_blocks lines [] False).
       b \<noteq> [] \<and> is_list_item (hd b) \<and> first_pass b [] 0 \<noteq> []
       \<and> (\<forall>key. \<exists>c. py_min (sort (map fst (first_pass b [] 0))) key = Inr c)
       \<and> (\<exists>out. process_list_block b = Inr out))
   \<and> (\<exists>out. process_nested_lists lines = Inr out)"
proof (intro conjI ballI allI)
  fix b assume b: "b \<in> set (passed_blocks lines [] False)"
  have inv: "block_inv [] False" by (simp add: block_inv_def)
  from passed_blocks_inv [OF inv] b show h: "b \<noteq> []" and i: "is_list_item (hd b)" by auto
  have "get_indent_level (hd b) \<in> fst ` set (first_pass b [] 0)"
    using h i by (auto simp: first_pass_keys)
  then show ne: "first_pass b [] 0 \<noteq> []" by auto
  show "\<exists>out. process_list_block b = Inr out" using block_head_ok [OF h i] .
  fix key
  have "sort (map fst (first_pass b [] 0)) \<noteq> []" using ne sort_not_Nil by auto
  from py_min_in [OF this, of key]
  show "\<exists>c. py_min (sort (map fst (first_pass b [] 0))) key = Inr c" by blast
next
  have inv: "block_inv [] False" by (simp add: block_inv_def)
  show "\<exists>out. process_nested_lists lines = Inr out"
    using nested_loop_ok [OF inv] by (simp add: process_nested_lists_def)
qed

theorem segmentation_blocks_start_with_item_witness:
  "[''* a'', ''more''] \<in> set (passed_blocks [''* a'', ''more'', [], ''x''] [] False)
   \<and> is_list_item (hd [''* a'', ''more''])
   \<and> first_pass [''* a'', ''more''] [] 0 \<noteq> []
   \<and> (\<exists>out. process_list_block [''* a'', ''more''] = Inr out)
   \<and> (\<exists>out. process_nested_lists [''* a'', ''more'', [], ''x''] = Inr out)"
proof -
  have m: "[''* a'', ''more''] \<in> set (passed_blocks [''* a'', ''more'', [], ''x''] [] False)"
    by (simp add: str_eval)
  show ?thesis
    using segmentation_blocks_start_with_item [of "[''* a'', ''more'', [], ''x'']"] m
    by blast
qed

lemma nested_prefix:
  "nested_loop ls (r @ r') lb il =
     (case nested_loop ls r' lb il of Inl e \<Rightarrow> Inl e | Inr out \<Rightarrow> Inr (r @ out))"
proof (induction ls arbitrary: r' lb il)
  case Nil
  show ?case by (simp split: sum.splits)
next
  case (Cons l ls)
  show ?case
    by (simp add: Let_def Cons.IH split: sum.splits)
qed

lemma nested_block_run:
  "\<forall>l\<in>set blk. lstrip l \<noteq> [] \<Longrightarrow>
   nested_loop (blk @ ys) r lb True = nested_loop ys r (lb @ blk) True"
  by (induction blk arbitrary: lb) (simp_all add: Let_def)

lemma nested_no_items:
  "\<forall>l\<in>set pre. \<not> is_list_item l \<Longrightarrow>
   nested_loop (pre @ ys) r [] False =
     nested_loop ys (r @ concat (map (\<lambda>l. fst (add_metadata l False)) pre)) [] False"
  by (induction pre arbitrary: r) (simp_all add: Let_def)

lemma passed_block_run:
  "\<forall>l\<in>set blk. lstrip l \<noteq> [] \<Longrightarrow>
   passed_blocks (blk @ ys) lb True = passed_blocks ys (lb @ blk) True"
  by (induction blk arbitrary: lb) (simp_all add: Let_def)

lemma passed_no_items:
  "\<forall>l\<in>set pre. \<not> is_list_item l \<Longrightarrow>
   passed_blocks (pre @ ys) [] False = passed_blocks ys [] False"
  by (induction pre) (simp_all add: Let_def)

text \<open>
  C6, as the code has it. A list block starts at a list item met outside a list and
  runs to the next blank line or to the end of the input, whatever follows the blank
  line. For lines \<open>pre\<close> without a list item, a block \<open>blk\<close> that starts with a list item
  and has no blank line, and a blank line \<open>b\<close>: the block handed to the normalizer is
  \<open>blk\<close> itself, the output is the annotated lines of \<open>pre\<close>, the normalized block with
  its comment, the blank line, and then the output of the rest, segmented on its own; a
  list item in the rest starts a new block. When the input ends with the block, the
  block ends there.
\<close>

theorem list_block_ends_at_blank_line:
  assumes "\<forall>l\<in>set pre. \<not> is_list_item l" and "blk \<noteq> []" and "is_list_item (hd blk)"
    and "\<forall>l\<in>set blk. lstrip l \<noteq> []" and "lstrip b = []"
  shows "\<exists>o1 o2. process_list_block blk = Inr o1 \<and> process_nested_lists rest = Inr o2
     \<and> process_nested_lists (pre @ blk @ b # rest)
         = Inr (concat (map (\<lambda>l. fst (add_metadata l False)) pre) @ o1 @ b # o2)
     \<and> process_nested_lists (pre @ blk)
         = Inr (concat (map (\<lambda>l. fst (add_metadata l False)) pre) @ o1)
     \<and> passed_blocks (pre @ blk @ b # rest) [] False = blk # passed_blocks rest [] False
     \<and> passed_blocks (pre @ blk) [] False = [blk]"
proof -
  let ?A = "concat (map (\<lambda>l. fst (add_metadata l False)) pre)"
  obtain x xs where blk: "blk = x # xs" using assms(2) by (cases blk) auto
  have x: "is_list_item x" using assms(3) blk by simp
  have xs: "\<forall>l\<in>set xs. lstrip l \<noteq> []" using assms(4) blk by simp
  have nb: "\<not> is_list_item b" using assms(5) by (rule blank_not_item)
  obtain o1 where o1: "process_list_block blk = Inr o1"
    using block_head_ok [OF assms(2,3)] by blast
  have inv: "block_inv [] False" by (simp add: block_inv_def)
  obtain o2 where o2: "nested_loop rest [] [] False = Inr o2"
    using nested_loop_ok [OF inv] by blast
  have start: "nested_loop (x # zs) r [] False = nested_loop zs r [x] True" for zs r
    using x by simp
  have run: "nested_loop (blk @ zs) r [] False = nested_loop zs r blk True" for zs r
    using start [of "xs @ zs" r] nested_block_run [OF xs, of zs r "[x]"] blk by simp
  have stop: "nested_loop (b # rest) r blk True = nested_loop rest (r @ o1 @ [b]) [] False" for r
    using nb assms(5) assms(2) o1 by simp
  have "nested_loop rest ((?A @ o1 @ [b]) @ []) [] False = Inr ((?A @ o1 @ [b]) @ o2)"
    using nested_prefix [of rest "?A @ o1 @ [b]" "[]" "[]" False] o2 by simp
  then have full: "nested_loop (pre @ blk @ b # rest) [] [] False = Inr (?A @ o1 @ b # o2)"
    using nested_no_items [OF assms(1), of "blk @ b # rest" "[]"] run [of "b # rest" ?A]
      stop [of ?A] by simp
  have last: "nested_loop (pre @ blk) [] [] False = Inr (?A @ o1)"
    using nested_no_items [OF assms(1), of "blk" "[]"] run [of "[]" ?A] assms(2) o1 by simp
  have pstart: "passed_blocks (x # zs) [] False = passed_blocks zs [x] True" for zs
    using x by simp
  have prun: "passed_blocks (blk @ zs) [] False = passed_blocks zs blk True" for zs
    using pstart [of "xs @ zs"] passed_block_run [OF xs, of zs "[x]"] blk by simp
  have pstop: "passed_blocks (b # rest) blk True = blk # passed_blocks rest [] False"
    using nb assms(5) assms(2) by simp
  have p1: "passed_blocks (pre @ blk @ b # rest) [] False = blk # passed_blocks rest [] False"
    using passed_no_items [OF assms(1), of "blk @ b # rest"] prun [of "b # rest"] pstop by simp
  have p2: "passed_blocks (pre @ blk) [] False = [blk]"
    using passed_no_items [OF assms(1), of "blk"] prun [of "[]"] assms(2) by simp
  show ?thesis
    using o1 o2 full last p1 p2 by (simp add: process_nested_lists_def)
qed

theorem list_block_ends_at_blank_line_witness:
  "process_nested_lists ([''# T''] @ [''* a'', ''more''] @ [] # [''* b''])
     = Inr [''# T'', ''<!-- Type: Heading 1 -->'', ''* a'', ''  more'', LIST_COMMENT, [], ''* b'', LIST_COMMENT]
   \<and> passed_blocks ([''# T''] @ [''* a'', ''more''] @ [] # [''* b'']) [] False
     = [''* a'', ''more''] # passed_blocks [''* b''] [] False"
proof -
  have h1: "\<forall>l\<in>set [''# T'']. \<not> is_list_item l" by (simp add: str_eval)
  have h2: "[''* a'', ''more''] \<noteq> []" by simp
  have h3: "is_list_item (hd [''* a'', ''more''])" by (simp add: str_eval)
  have h4: "\<forall>l\<in>set [''* a'', ''more'']. lstrip l \<noteq> []" by (simp add: str_eval)
  have h5: "lstrip [] = []" by (simp add: str_eval)
  have e1: "process_list_block [''* a'', ''more''] = Inr [''* a'', ''  more'', LIST_COMMENT]"
    by (simp add: str_eval)
  have e2: "process_nested_lists [''* b''] = Inr [''* b'', LIST_COMMENT]"
    by (simp add: str_eval pipe_eval)
  have e3: "add_metadata ''# T'' False = ([''# T'', ''<!-- Type: Heading 1 -->''], Some ''heading_1'')"
    by (simp add: str_eval pipe_eval str_nat.simps)
  show ?thesis
    using list_block_ends_at_blank_line [OF h1 h2 h3 h4 h5, of "[''* b'']"] e1 e2 e3 by auto
qed

text \<open>
  C6, as stated, fails: list items after a blank line are not in the block of the
  items before it. Two blocks are handed to the normalizer and two comments are written.
\<close>

theorem items_after_blank_line_start_new_block:
  "process_nested_lists [''* a'', [], ''* b'']
     = Inr [''* a'', ''<!-- Type: List Block -->'', [], ''* b'', ''<!-- Type: List Block -->'']
   \<and> passed_blocks [''* a'', [], ''* b''] [] False = [[''* a''], [''* b'']]"
  by (simp add: str_eval pipe_eval)

section \<open>The list normalizer\<close>

lemma first_seen_set [simp]: "set (first_seen ws) = set ws"
  by (induction ws) auto

lemma first_seen_distinct [simp]: "distinct (first_seen ws)"
  by (induction ws) auto

lemma first_pass_eq:
  "first_pass ls d cur =
     d @ zip (filter (\<lambda>w. w \<notin> fst ` set d) (first_seen (item_widths ls)))
             [cur ..< cur + length (filter (\<lambda>w. w \<notin> fst ` set d) (first_seen (item_widths ls)))]"
proof (induction ls arbitrary: d cur)
  case Nil
  show ?case by (simp add: item_widths_def)
next
  case (Cons l ls)
  let ?fs = "first_seen (item_widths ls)"
  show ?case
  proof (cases "is_list_item l")
    case False
    then have "item_widths (l # ls) = item_widths ls" by (simp add: item_widths_def)
    then show ?thesis using False Cons.IH [of d cur] by simp
  next
    case True
    let ?w = "get_indent_level l"
    have iw: "first_seen (item_widths (l # ls)) = ?w # filter (\<lambda>v. v \<noteq> ?w) ?fs"
      using True by (simp add: item_widths_def)
    show ?thesis
    proof (cases "map_of d ?w = None")
      case n: True
      then have nk: "?w \<notin> fst ` set d" by (simp add: map_of_eq_None_iff)
      let ?nk = "filter (\<lambda>v. v \<notin> fst ` set (d @ [(?w, cur)])) ?fs"
      have fp: "first_pass (l # ls) d cur = first_pass ls (d @ [(?w, cur)]) (cur + 1)"
        using True n by (simp add: Let_def)
      have f1: "filter (\<lambda>v. v \<notin> fst ` set d) (first_seen (item_widths (l # ls))) = ?w # ?nk"
        using nk by (auto simp: iw intro: filter_cong)
      have "[cur ..< cur + length (?w # ?nk)] = cur # [cur + 1 ..< cur + 1 + length ?nk]"
        by (subst upt_rec) simp
      then show ?thesis
        unfolding fp f1 using Cons.IH [of "d @ [(?w, cur)]" "cur + 1"] by simp
    next
      case n: False
      then have k: "?w \<in> fst ` set d" by (simp add: map_of_eq_None_iff)
      have fp: "first_pass (l # ls) d cur = first_pass ls d cur"
        using True n by (auto simp: Let_def)
      have f1: "filter (\<lambda>v. v \<notin> fst ` set d) (first_seen (item_widths (l # ls)))
                = filter (\<lambda>v. v \<notin> fst ` set d) ?fs"
        using k by (auto simp: iw intro: filter_cong)
      show ?thesis unfolding fp f1 using Cons.IH [of d cur] by simp
    qed
  qed
qed

lemma first_pass_levels:
  "first_pass ls [] 0 = zip (first_seen (item_widths ls)) [0 ..< length (first_seen (item_widths ls))]"
  using first_pass_eq [of ls "[]" 0] by simp

lemma position_less: "w \<in> set ws \<Longrightarrow> position ws w < length ws"
  unfolding position_def by (induction ws) auto

lemma position_nth: "w \<in> set ws \<Longrightarrow> ws ! position ws w = w"
  unfolding position_def by (induction ws) auto

lemma map_of_positions:
  assumes "distinct ws" "w \<in> set ws"
  shows "map_of (zip ws [0 ..< length ws]) w = Some (position ws w)"
proof -
  have "map_of (zip ws [0 ..< length ws]) (ws ! position ws w) = Some ([0 ..< length ws] ! position ws w)"
    using assms position_less [OF assms(2)] by (intro map_of_zip_nth) auto
  then show ?thesis using position_nth [OF assms(2)] position_less [OF assms(2)] by simp
qed

lemma foldl_min_le:
  fixes key :: "nat \<Rightarrow> nat"
  shows "\<forall>y\<in>set (x # xs). key (foldl (\<lambda>best y. if key y < key best then y else best) x xs) \<le> key y"
proof (induction xs arbitrary: x)
  case Nil
  show ?case by simp
next
  case (Cons y ys)
  show ?case using Cons.IH [of "if key y < key x then y else x"] by (auto split: if_splits)
qed

lemma py_min_exact:
  assumes "w \<in> set ks"
  shows "py_min ks (\<lambda>x. abs_diff x w) = Inr w"
proof -
  obtain x xs where ks: "ks = x # xs" using assms by (cases ks) auto
  let ?r = "foldl (\<lambda>best y. if abs_diff y w < abs_diff best w then y else best) x xs"
  have "abs_diff ?r w \<le> abs_diff w w"
    using foldl_min_le [where key = "\<lambda>x. abs_diff x w" and x = x and xs = xs] assms ks by blast
  then have "?r = w" by (simp add: abs_diff_def split: if_splits)
  then show ?thesis by (simp add: ks)
qed

lemma item_level:
  assumes "line \<in> set lines" "is_list_item line"
  shows "normalize_line (first_pass lines [] 0) (sort (map fst (first_pass lines [] 0))) line
         = Inr (spaces (level_of lines (get_indent_level line)) @ ''* '' @ item_content (lstrip line))"
proof -
  let ?fs = "first_seen (item_widths lines)"
  let ?w = "get_indent_level line"
  have w: "?w \<in> set ?fs" using assms by (auto simp: item_widths_def)
  have keys: "map fst (first_pass lines [] 0) = ?fs" by (simp add: first_pass_levels)
  have "py_min (sort ?fs) (\<lambda>x. abs_diff x ?w) = Inr ?w" using w by (intro py_min_exact) simp
  moreover have "map_of (first_pass lines [] 0) ?w = Some (level_of lines ?w)"
    unfolding first_pass_levels level_of_def using w by (intro map_of_positions) auto
  moreover have "lstrip line \<noteq> []" using assms(2) by (auto simp: is_list_item_def Let_def)
  ultimately show ?thesis using assms(2) by (simp add: normalize_line_def keys Let_def)
qed

lemma second_pass_nth:
  "second_pass d ks ls = Inr out \<Longrightarrow>
   length out = length ls \<and> (\<forall>i<length ls. normalize_line d ks (ls ! i) = Inr (out ! i))"
proof (induction ls arbitrary: out)
  case Nil
  then show ?case by simp
next
  case (Cons l ls)
  from Cons.prems obtain o1 r where o: "normalize_line d ks l = Inr o1"
    "second_pass d ks ls = Inr r" "out = o1 # r"
    by (auto split: sum.splits)
  show ?case using Cons.IH [OF o(2)] o by (auto simp: nth_Cons split: nat.splits)
qed

lemma item_content_bullet:
  assumes "is_marker m" "ws \<noteq> []" "\<forall>x\<in>set ws. is_space x" "c = [] \<or> \<not> is_space (hd c)"
  shows "item_content (m # ws @ c) = c"
proof -
  have nd: "\<not> is_digit m" using assms(1) by (auto simp: is_marker_def is_digit_def)
  have "\<not> is_marker (hd ws)" using assms(2,3) by (cases ws) (auto simp: is_marker_def is_space_def)
  then have "dropWhile is_marker (ws @ c) = ws @ c" using assms(2) by (cases ws) auto
  moreover have "dropWhile is_space (ws @ c) = c"
    using assms(3,4) by (cases c) (auto simp: dropWhile_append)
  ultimately show ?thesis using assms(1) nd
    by (simp add: item_content_def match_number_def lstrip_def)
qed

lemma item_content_number:
  assumes "ds \<noteq> []" "\<forall>d\<in>set ds. is_digit d" "\<forall>x\<in>set ws. is_space x" "c = [] \<or> \<not> is_space (hd c)"
  shows "item_content (ds @ ''.'' @ ws @ c) = c"
proof -
  have nd: "\<not> is_digit CHR ''.''" by (simp add: is_digit_def)
  have t: "takeWhile is_digit (ds @ ''.'' @ ws @ c) = ds"
    using assms(2) nd by (simp add: takeWhile_append)
  have d: "dropWhile is_digit (ds @ ''.'' @ ws @ c) = ''.'' @ ws @ c"
    using assms(2) nd by (simp add: dropWhile_append)
  have "dropWhile is_space (ws @ c) = c"
    using assms(3,4) by (cases c) (auto simp: dropWhile_append)
  then show ?thesis using assms(1) t d
    by (simp add: item_content_def match_number_def sub_number_prefix_def)
qed

text \<open>
  C1. The dictionary of a block pairs the indentations of its list items, in the order
  in which they are first seen from top to bottom, with the levels 0, 1, 2 and so on.
  In a block, every line that is a list item is rewritten to two blanks for each
  level of its indentation, then \<^verbatim>\<open>* \<close>, then its content, where the level of an
  indentation is its place, from 0, in the order in which the indentations of the list
  items are first seen from top to bottom; the other lines keep their place and the
  comment of the block comes last. The content of an item is what follows the marker:
  for a bullet and the blanks after it, and for a number with its dot and the blanks
  after it, the text that begins at the first character that is not a blank. The lines
  \<^verbatim>\<open>* Item A\<close>, \<^verbatim>\<open>  * Item B\<close>, \<^verbatim>\<open>- Item C\<close> give the output of the example.
\<close>

theorem list_items_get_first_seen_levels:
  "first_pass lines [] 0
     = zip (first_seen (item_widths lines)) [0 ..< length (first_seen (item_widths lines))]
   \<and> (\<forall>i < length lines. is_list_item (lines ! i) \<longrightarrow>
      (\<exists>out. process_list_block lines = Inr (out @ [LIST_COMMENT]) \<and> length out = length lines
         \<and> out ! i = spaces (level_of lines (get_indent_level (lines ! i))) @ ''* ''
                       @ item_content (lstrip (lines ! i))))
   \<and> (\<forall>m ws c. is_marker m \<and> ws \<noteq> [] \<and> (\<forall>x\<in>set ws. is_space x) \<and> (c = [] \<or> \<not> is_space (hd c))
         \<longrightarrow> item_content (m # ws @ c) = c)
   \<and> (\<forall>ds ws c. ds \<noteq> [] \<and> (\<forall>d\<in>set ds. is_digit d) \<and> (\<forall>x\<in>set ws. is_space x)
         \<and> (c = [] \<or> \<not> is_space (hd c))
         \<longrightarrow> item_content (ds @ ''.'' @ ws @ c) = c)
   \<and> process_list_block [''* Item A'', ''  * Item B'', ''- Item C'']
       = Inr [''* Item A'', ''  * Item B'', ''* Item C'', ''<!-- Type: List Block -->'']"
proof (intro conjI allI impI)
  show "first_pass lines [] 0
     = zip (first_seen (item_widths lines)) [0 ..< length (first_seen (item_widths lines))]"
    by (rule first_pass_levels)
next
  fix i assume i: "i < length lines" "is_list_item (lines ! i)"
  let ?d = "first_pass lines [] 0"
  have mem: "lines ! i \<in> set lines" using i(1) by simp
  obtain r where r: "process_list_block lines = Inr r"
    using process_list_block_ok [OF mem i(2)] by blast
  have ne: "lines \<noteq> []" using i(1) by auto
  from r ne obtain out where out: "second_pass ?d (sort (map fst ?d)) lines = Inr out"
    "r = out @ [LIST_COMMENT]"
    by (auto simp: process_list_block_def Let_def split: sum.splits)
  have "normalize_line ?d (sort (map fst ?d)) (lines ! i) = Inr (out ! i)" "length out = length lines"
    using second_pass_nth [OF out(1)] i(1) by auto
  then show "\<exists>out. process_list_block lines = Inr (out @ [LIST_COMMENT]) \<and> length out = length lines
         \<and> out ! i = spaces (level_of lines (get_indent_level (lines ! i))) @ ''* ''
                       @ item_content (lstrip (lines ! i))"
    using item_level [OF mem i(2)] r out(2) by auto
next
  fix m ws c
  assume "is_marker m \<and> ws \<noteq> [] \<and> (\<forall>x\<in>set ws. is_space x) \<and> (c = [] \<or> \<not> is_space (hd c))"
  then show "item_content (m # ws @ c) = c" using item_content_bullet by blast
next
  fix ds ws c
  assume "ds \<noteq> [] \<and> (\<forall>d\<in>set ds. is_digit d) \<and> (\<forall>x\<in>set ws. is_space x)
         \<and> (c = [] \<or> \<not> is_space (hd c))"
  then show "item_content (ds @ ''.'' @ ws @ c) = c" using item_content_number by blast
next
  show "process_list_block [''* Item A'', ''  * Item B'', ''- Item C'']
       = Inr [''* Item A'', ''  * Item B'', ''* Item C'', ''<!-- Type: List Block -->'']"
    by (simp add: str_eval)
qed

theorem list_items_get_first_seen_levels_witness:
  "(1 :: nat) < length [''* Item A'', ''  * Item B'', ''- Item C'']
   \<and> is_list_item ([''* Item A'', ''  * Item B'', ''- Item C''] ! 1)
   \<and> level_of [''* Item A'', ''  * Item B'', ''- Item C''] 2 = 1
   \<and> first_pass [''* Item A'', ''  * Item B'', ''- Item C''] [] 0 = [(0, 0), (2, 1)]
   \<and> (\<exists>out. process_list_block [''* Item A'', ''  * Item B'', ''- Item C'']
               = Inr (out @ [LIST_COMMENT]) \<and> out ! 1 = ''  * Item B'')
   \<and> item_content ''- Item C'' = ''Item C''
   \<and> item_content ''12.  x'' = ''x''"
proof -
  let ?L = "[''* Item A'', ''  * Item B'', ''- Item C'']"
  note c = list_items_get_first_seen_levels [of ?L]
  have h1: "(1 :: nat) < length ?L" by simp
  have h2: "is_list_item (?L ! 1)" by (simp add: str_eval)
  have lv: "level_of ?L 2 = 1" by (simp add: str_eval level_eval)
  have ind: "get_indent_level (?L ! 1) = 2" by (simp add: str_eval)
  have ct: "item_content (lstrip (?L ! 1)) = ''Item B''" by (simp add: str_eval)
  from c h1 h2 have "\<exists>out. process_list_block ?L = Inr (out @ [LIST_COMMENT]) \<and> length out = length ?L
         \<and> out ! 1 = spaces (level_of ?L (get_indent_level (?L ! 1))) @ ''* ''
                       @ item_content (lstrip (?L ! 1))"
    by blast
  then have a: "\<exists>out. process_list_block ?L = Inr (out @ [LIST_COMMENT]) \<and> out ! 1 = ''  * Item B''"
    unfolding ind lv ct by (auto simp: spaces_def)
  have fs: "first_seen (item_widths ?L) = [0, 2]" by (simp add: str_eval level_eval)
  from c have fp: "first_pass ?L [] 0 = [(0, 0), (2, 1)]"
    unfolding fs by (simp add: upt_rec)
  have m: "is_marker CHR ''-'' \<and> '' '' \<noteq> [] \<and> (\<forall>x\<in>set '' ''. is_space x)
       \<and> (''Item C'' = [] \<or> \<not> is_space (hd ''Item C''))"
    by (simp add: str_eval)
  from c m have b: "item_content (CHR ''-'' # '' '' @ ''Item C'') = ''Item C''" by blast
  have n: "''12'' \<noteq> [] \<and> (\<forall>d\<in>set ''12''. is_digit d) \<and> (\<forall>x\<in>set ''  ''. is_space x)
         \<and> (''x'' = [] \<or> \<not> is_space (hd ''x''))"
    by (simp add: str_eval)
  from c n have d: "item_content (''12'' @ ''.'' @ ''  '' @ ''x'') = ''x''" by blast
  show ?thesis using h1 h2 lv fp a b d by simp
qed

lemma second_pass_map:
  "second_pass d ks ls = Inr out \<Longrightarrow>
   out = map (\<lambda>l. projr (normalize_line d ks l)) ls \<and> (\<forall>l\<in>set ls. \<not> isl (normalize_line d ks l))"
proof (induction ls arbitrary: out)
  case Nil
  then show ?case by simp
next
  case (Cons l ls)
  from Cons.prems obtain o1 r where o: "normalize_line d ks l = Inr o1"
    "second_pass d ks ls = Inr r" "out = o1 # r"
    by (auto split: sum.splits)
  show ?case using Cons.IH [OF o(2)] o by simp
qed

lemma second_pass_fixed:
  "\<forall>l\<in>set ls. normalize_line d ks l = Inr l \<Longrightarrow> second_pass d ks ls = Inr ls"
  by (induction ls) simp_all

lemma spaces_length [simp]: "length (spaces n) = 2 * n"
  by (induction n) (simp_all add: spaces_def)

lemma spaces_blank: "\<forall>x\<in>set (spaces n). is_space x"
  by (induction n) (simp_all add: spaces_def is_space_def)

lemma lstrip_spaces [simp]: "lstrip (spaces n @ s) = lstrip s"
  using spaces_blank [of n] by (simp add: lstrip_def dropWhile_append)

lemma lstrip_length: "length (lstrip s) \<le> length s"
  by (simp add: lstrip_def length_dropWhile_le)

lemma lstrip_idem: "lstrip s = s" if "s = [] \<or> \<not> is_space (hd s)"
  using that by (cases s) (auto simp: lstrip_def)

lemma lstrip_head: "lstrip s = [] \<or> \<not> is_space (hd (lstrip s))"
  unfolding lstrip_def using hd_dropWhile [of is_space s] by blast

lemma indent_spaces:
  assumes "s = [] \<or> \<not> is_space (hd s)"
  shows "get_indent_level (spaces n @ s) = 2 * n"
  using lstrip_idem [OF assms] by (simp add: get_indent_level_def)

lemma is_list_item_lstrip: "lstrip a = lstrip b \<Longrightarrow> is_list_item a = is_list_item b"
  by (simp add: is_list_item_def)

lemma item_content_head: "item_content s = [] \<or> \<not> is_space (hd (item_content s))"
proof (cases "match_number s")
  case True
  then show ?thesis
    using hd_dropWhile [of is_space "drop 1 (dropWhile is_digit s)"]
    by (auto simp: item_content_def sub_number_prefix_def)
next
  case False
  then show ?thesis
    using lstrip_head [of "dropWhile is_marker s"] by (simp add: item_content_def)
qed

lemma lstrip_star [simp]: "lstrip (CHR ''*'' # s) = CHR ''*'' # s"
  by (simp add: lstrip_def is_space_def)

lemma star_item: "is_list_item (spaces n @ ''* '' @ c)"
  by (simp add: is_list_item_def)

lemma position_nth_distinct:
  "distinct ws \<Longrightarrow> i < length ws \<Longrightarrow> position ws (ws ! i) = i"
proof (induction ws arbitrary: i)
  case Nil
  then show ?case by simp
next
  case (Cons x xs)
  show ?case
  proof (cases i)
    case 0
    then show ?thesis by (simp add: position_def)
  next
    case (Suc j)
    then have "xs ! j \<noteq> x" using Cons.prems by auto
    then show ?thesis using Cons.IH [of j] Cons.prems Suc by (simp add: position_def)
  qed
qed

lemma position_inj: "inj_on (position ws) (set ws)"
  by (rule inj_onI) (metis position_nth)

lemma first_seen_map:
  "inj_on g (set ws) \<Longrightarrow> first_seen (map g ws) = map g (first_seen ws)"
proof (induction ws)
  case Nil
  show ?case by simp
next
  case (Cons w ws)
  have inj: "inj_on g (set ws)" using Cons.prems by (simp add: inj_on_def)
  have "filter (\<lambda>v. v \<noteq> g w) (map g (first_seen ws)) = map g (filter (\<lambda>v. v \<noteq> w) (first_seen ws))"
    using Cons.prems by (auto simp: filter_map comp_def inj_on_def intro!: filter_cong arg_cong [where f = "map g"])
  then show ?case using Cons.IH [OF inj] by simp
qed

lemma map_position_first_seen:
  "distinct ws \<Longrightarrow> map (position ws) ws = [0 ..< length ws]"
  by (rule nth_equalityI) (simp_all add: position_nth_distinct)

lemma py_min_spec:
  assumes "xs \<noteq> []"
  shows "\<exists>r. py_min xs key = Inr r \<and> r \<in> set xs \<and> (\<forall>y\<in>set xs. key r \<le> key y)"
proof -
  obtain x ys where xs: "xs = x # ys" using assms by (cases xs) auto
  show ?thesis
    using foldl_min_in [of key x ys] foldl_min_le [where key = key and x = x and xs = ys]
    unfolding xs by auto
qed

lemma lstrip_lstrip [simp]: "lstrip (lstrip s) = lstrip s"
  using lstrip_head [of s] by (intro lstrip_idem) 

lemma position_last:
  assumes "distinct ws" "ws \<noteq> []"
  shows "position ws (last ws) = length ws - 1"
  using position_nth_distinct [OF assms(1), of "length ws - 1"] assms(2)
  by (simp add: last_conv_nth)

lemma doubled_levels:
  assumes "j < k"
  shows "position (map (\<lambda>i. 2 * i) [0 ..< k]) (2 * j) = j"
proof -
  have "distinct (map (\<lambda>i. 2 * i :: nat) [0 ..< k])" by (simp add: distinct_map inj_on_def)
  from position_nth_distinct [OF this, of j] assms show ?thesis by simp
qed

text \<open>
  C5, as the code has it. The normalizer is idempotent on every block that has a list
  item and in which, for each line that is neither blank nor a list item, the item
  indentation closest to the line's own (the one \<^verbatim>\<open>min\<close> picks) is the one that was
  first seen last, the one of the highest level; blocks without such lines are among
  them. Normalizing the lines written for such a block, without the comment, writes the
  same lines again.
\<close>

theorem normalizer_idempotent_on_deepest_continuations:
  assumes items: "\<exists>l\<in>set lines. is_list_item l"
    and conts: "\<forall>l\<in>set lines. lstrip l \<noteq> [] \<and> \<not> is_list_item l \<longrightarrow>
        py_min (sort (first_seen (item_widths lines))) (\<lambda>x. abs_diff x (get_indent_level l))
          = Inr (last (first_seen (item_widths lines)))"
  shows "\<exists>out. process_list_block lines = Inr (out @ [LIST_COMMENT])
           \<and> process_list_block out = Inr (out @ [LIST_COMMENT])"
proof -
  let ?fs = "first_seen (item_widths lines)"
  let ?k = "length ?fs"
  let ?d = "first_pass lines [] 0"
  let ?ks = "sort (map fst ?d)"
  let ?f = "\<lambda>l. projr (normalize_line ?d ?ks l)"
  let ?out = "map ?f lines"
  have d: "?d = zip ?fs [0 ..< ?k]" by (rule first_pass_levels)
  have ks: "?ks = sort ?fs" by (simp add: d)
  have ne: "lines \<noteq> []" using items by auto
  have fs_ne: "?fs \<noteq> []" using items by (auto simp: item_widths_def simp flip: set_empty)
  then have k: "0 < ?k" by simp
  \<comment> \<open>the first run\<close>
  obtain l0 where "l0 \<in> set lines" "is_list_item l0" using items by blast
  then obtain r where r: "process_list_block lines = Inr r"
    using process_list_block_ok by blast
  from r ne obtain out where sp: "second_pass ?d ?ks lines = Inr out" and rr: "r = out @ [LIST_COMMENT]"
    by (auto simp: process_list_block_def Let_def split: sum.splits)
  have out: "out = ?out" using second_pass_map [OF sp] by simp
  have run1: "process_list_block lines = Inr (?out @ [LIST_COMMENT])" using r rr out by simp
  \<comment> \<open>what the first run writes for each kind of line\<close>
  have f_blank: "?f l = l" if "lstrip l = []" for l
    using that by (simp add: normalize_line_def)
  have f_item: "?f l = spaces (position ?fs (get_indent_level l)) @ ''* '' @ item_content (lstrip l)"
    if "l \<in> set lines" "is_list_item l" for l
    using item_level [OF that] by (simp add: level_of_def)
  have f_cont: "?f l = spaces ?k @ lstrip l"
    if "l \<in> set lines" "lstrip l \<noteq> []" "\<not> is_list_item l" for l
  proof -
    have "py_min ?ks (\<lambda>x. abs_diff x (get_indent_level l)) = Inr (last ?fs)"
      using conts that ks by simp
    moreover have "map_of ?d (last ?fs) = Some (?k - 1)"
    proof -
      have "last ?fs \<in> set ?fs" using fs_ne by (rule last_in_set)
      then have "map_of (zip ?fs [0 ..< ?k]) (last ?fs) = Some (position ?fs (last ?fs))"
        by (intro map_of_positions) simp
      then show ?thesis unfolding d using position_last [of ?fs] fs_ne by simp
    qed
    ultimately show ?thesis using that k by (simp add: normalize_line_def Let_def)
  qed
  have pos_less: "position ?fs (get_indent_level l) < ?k" if "l \<in> set lines" "is_list_item l" for l
    using that by (intro position_less) (auto simp: item_widths_def)
  \<comment> \<open>the kind of a line is kept\<close>
  have keep_item: "is_list_item (?f l) = is_list_item l" if "l \<in> set lines" for l
  proof (cases "lstrip l = []")
    case True
    then show ?thesis using f_blank by simp
  next
    case False
    show ?thesis
    proof (cases "is_list_item l")
      case True
      then show ?thesis using f_item [OF that True] star_item by simp
    next
      case nl: False
      have "lstrip (?f l) = lstrip l" using f_cont [OF that False nl] by simp
      then show ?thesis by (rule is_list_item_lstrip)
    qed
  qed
  have indent_item: "get_indent_level (?f l) = 2 * position ?fs (get_indent_level l)"
    if "l \<in> set lines" "is_list_item l" for l
    unfolding f_item [OF that] by (rule indent_spaces) (simp add: is_space_def)
  \<comment> \<open>the indentations of the second run\<close>
  have "filter is_list_item ?out = map ?f (filter is_list_item lines)"
    using keep_item by (simp add: filter_map comp_def cong: filter_cong)
  then have iw: "item_widths ?out = map (\<lambda>w. 2 * position ?fs w) (item_widths lines)"
    using indent_item by (simp add: item_widths_def comp_def)
  have inj: "inj_on (\<lambda>w. 2 * position ?fs w) (set (item_widths lines))"
    using position_inj [of ?fs] by (auto simp: inj_on_def)
  have "first_seen (item_widths ?out) = map (\<lambda>w. 2 * position ?fs w) ?fs"
    unfolding iw by (rule first_seen_map [OF inj])
  also have "\<dots> = map (\<lambda>i. 2 * i) (map (position ?fs) ?fs)" by (simp add: comp_def)
  also have "\<dots> = map (\<lambda>i. 2 * i) [0 ..< ?k]" by (simp add: map_position_first_seen)
  finally have fs': "first_seen (item_widths ?out) = map (\<lambda>i. 2 * i) [0 ..< ?k]" .
  let ?d' = "first_pass ?out [] 0"
  let ?ks' = "sort (map fst ?d')"
  have d': "?d' = zip (map (\<lambda>i. 2 * i) [0 ..< ?k]) [0 ..< ?k]"
    using first_pass_levels [of ?out] fs' by simp
  have ks': "set ?ks' = (\<lambda>i. 2 * i) ` {0 ..< ?k}" "?ks' \<noteq> []"
    using k sort_not_Nil [of "map fst ?d'"] by (auto simp: d')
  have lvl': "map_of ?d' (2 * j) = Some j" if "j < ?k" for j
  proof -
    have "map_of (zip (map (\<lambda>i. 2 * i) [0 ..< ?k]) [0 ..< length (map (\<lambda>i. 2 * i :: nat) [0 ..< ?k])]) (2 * j)
          = Some (position (map (\<lambda>i. 2 * i) [0 ..< ?k]) (2 * j))"
      using that by (intro map_of_positions) (auto simp: distinct_map inj_on_def)
    then show ?thesis using doubled_levels [OF that] by (simp add: d')
  qed
  \<comment> \<open>the second run leaves every line as it is\<close>
  have fixed: "normalize_line ?d' ?ks' (?f l) = Inr (?f l)" if "l \<in> set lines" for l
  proof (cases "lstrip l = []")
    case True
    then show ?thesis using f_blank by (simp add: normalize_line_def)
  next
    case False
    show ?thesis
    proof (cases "is_list_item l")
      case True
      let ?p = "position ?fs (get_indent_level l)"
      let ?c = "item_content (lstrip l)"
      have o: "?f l = spaces ?p @ ''* '' @ ?c" by (rule f_item [OF that True])
      have mem: "?f l \<in> set ?out" using that by simp
      have it: "is_list_item (?f l)" using keep_item [OF that] True by simp
      have "item_content (CHR ''*'' # '' '' @ ?c) = ?c"
        using item_content_head [of "lstrip l"]
        by (intro item_content_bullet) (auto simp: is_marker_def is_space_def)
      then have c: "item_content (lstrip (?f l)) = ?c" unfolding o by simp
      have "level_of ?out (get_indent_level (?f l)) = ?p"
        unfolding level_of_def fs' indent_item [OF that True]
        by (rule doubled_levels [OF pos_less [OF that True]])
      then show ?thesis using item_level [OF mem it] c o by simp
    next
      case nl: False
      let ?s = "lstrip l"
      have o: "?f l = spaces ?k @ ?s" by (rule f_cont [OF that False nl])
      have ni: "\<not> is_list_item (?f l)" using keep_item [OF that] nl by simp
      have st: "lstrip (?f l) = ?s" unfolding o by simp
      have ind: "get_indent_level (?f l) = 2 * ?k"
        unfolding o using lstrip_head [of l] by (intro indent_spaces) simp
      obtain c where c: "py_min ?ks' (\<lambda>x. abs_diff x (2 * ?k)) = Inr c" "c \<in> set ?ks'"
        "\<forall>y\<in>set ?ks'. abs_diff c (2 * ?k) \<le> abs_diff y (2 * ?k)"
        using py_min_spec [OF ks'(2), of "\<lambda>x. abs_diff x (2 * ?k)"] by blast
      have "2 * (?k - 1) \<in> set ?ks'" unfolding ks'(1) using k by simp
      then have "abs_diff c (2 * ?k) \<le> abs_diff (2 * (?k - 1)) (2 * ?k)" using c(3) by blast
      moreover obtain j where j: "c = 2 * j" "j < ?k" using c(2) unfolding ks'(1) by auto
      ultimately have "j = ?k - 1" using k by (simp add: abs_diff_def split: if_splits)
      then have "map_of ?d' c = Some (?k - 1)" using lvl' [of j] j by simp
      then show ?thesis
        using c(1) False ni st ind k o by (simp add: normalize_line_def Let_def)
    qed
  qed
  then have "second_pass ?d' ?ks' ?out = Inr ?out"
    by (intro second_pass_fixed) auto
  then have run2: "process_list_block ?out = Inr (?out @ [LIST_COMMENT])"
    using ne by (simp add: process_list_block_def Let_def)
  show ?thesis using run1 run2 by blast
qed

theorem normalizer_idempotent_on_deepest_continuations_witness:
  "process_list_block [''- A'', ''    1. B'', ''     note'']
     = Inr ([''* A'', ''  * B'', ''    note''] @ [LIST_COMMENT])
   \<and> process_list_block [''* A'', ''  * B'', ''    note'']
     = Inr ([''* A'', ''  * B'', ''    note''] @ [LIST_COMMENT])"
proof -
  let ?L = "[''- A'', ''    1. B'', ''     note'']"
  have h1: "\<exists>l\<in>set ?L. is_list_item l" by (simp add: str_eval)
  have h2: "\<forall>l\<in>set ?L. lstrip l \<noteq> [] \<and> \<not> is_list_item l \<longrightarrow>
        py_min (sort (first_seen (item_widths ?L))) (\<lambda>x. abs_diff x (get_indent_level l))
          = Inr (last (first_seen (item_widths ?L)))"
    by (simp add: str_eval level_eval)
  have e: "process_list_block ?L = Inr ([''* A'', ''  * B'', ''    note''] @ [LIST_COMMENT])"
    by (simp add: str_eval)
  show ?thesis using normalizer_idempotent_on_deepest_continuations [OF h1 h2] e by auto
qed

text \<open>
  C5, as stated, fails for a block with a continuation line under an item that is not
  of the highest level: the first run indents the line \<^verbatim>\<open>cont\<close> by two blanks, which
  is the indentation of the second item, and the second run then takes it for a line of
  that item and indents it by four.
\<close>

theorem continuation_line_moves_on_second_run:
  "process_list_block [''* A'', ''  * B'', ''cont'']
     = Inr ([''* A'', ''  * B'', ''  cont''] @ [''<!-- Type: List Block -->''])
   \<and> process_list_block [''* A'', ''  * B'', ''  cont'']
     = Inr ([''* A'', ''  * B'', ''    cont''] @ [''<!-- Type: List Block -->''])"
  by (simp add: str_eval)

section \<open>Empty input and resolution of placeholders\<close>

lemma has_backslash_tag: "has_backslash (image_tag info) = has_backslash (filename info)"
  by (simp add: has_backslash_def image_tag_def)

lemma resolve_images_Nil:
  "\<forall>(rId, info)\<in>set image_map. \<not> has_backslash (filename info) \<Longrightarrow>
   resolve_images re_sub image_map [] = Inr []"
  by (induction image_map) (auto simp: image_sub_def has_backslash_tag)

lemma resolve_links_Nil:
  "\<forall>rel\<in>set rels. is_external rel \<longrightarrow> plain_id (rel_rId rel) \<and> \<not> has_backslash (target_ref rel) \<Longrightarrow>
   resolve_links re_sub rels [] = Inr []"
  by (induction rels) (auto simp: link_step_def link_sub.simps)

text \<open>
  C8, as the code has it: there is no check for an empty line sequence and no error
  for it. With no lines, the list and table passes give the empty text without an
  error, and the conversion is the resolution of images and links on the empty text.
  When no file name of an image has a backslash, and every external relationship has
  an identifier of letters, digits and underscores and a target without a backslash,
  the conversion returns the empty text. (With a backslash in a replacement the result
  is that of \<^verbatim>\<open>re.sub\<close>, which may be \<^verbatim>\<open>re.error\<close>.)
\<close>

theorem empty_input_gives_empty_text:
  "convert_core re_sub [] image_map rels
     = (case resolve_images re_sub image_map [] of
          Inl e \<Rightarrow> Inl e
        | Inr text1 \<Rightarrow> resolve_links re_sub rels text1)
   \<and> ((\<forall>(rId, info)\<in>set image_map. \<not> has_backslash (filename info))
       \<and> (\<forall>rel\<in>set rels. is_external rel \<longrightarrow>
             plain_id (rel_rId rel) \<and> \<not> has_backslash (target_ref rel))
       \<longrightarrow> convert_core re_sub [] image_map rels = Inr [])"
proof (intro conjI impI)
  show "convert_core re_sub [] image_map rels
     = (case resolve_images re_sub image_map [] of
          Inl e \<Rightarrow> Inl e
        | Inr text1 \<Rightarrow> resolve_links re_sub rels text1)"
    by (simp add: convert_core_def process_nested_lists_def group_tables_def table_finish_def)
next
  assume h: "(\<forall>(rId, info)\<in>set image_map. \<not> has_backslash (filename info))
       \<and> (\<forall>rel\<in>set rels. is_external rel \<longrightarrow>
             plain_id (rel_rId rel) \<and> \<not> has_backslash (target_ref rel))"
  then have "resolve_images re_sub image_map [] = Inr []" "resolve_links re_sub rels [] = Inr []"
    using resolve_images_Nil [of image_map re_sub] resolve_links_Nil [of rels re_sub] by blast+
  then show "convert_core re_sub [] image_map rels = Inr []"
    by (simp add: convert_core_def process_nested_lists_def group_tables_def table_finish_def)
qed

theorem empty_input_gives_empty_text_witness:
  "\<not> has_backslash ''doc_0.png'' \<and> plain_id ''rId7'' \<and> \<not> has_backslash ''http://example.org/a''
   \<and> convert_core (\<lambda>p repl s n. Inl ReError) []
       [(''rId4'', \<lparr>filename = ''doc_0.png'', content = [], content_type = ''image/png''\<rparr>)]
       [\<lparr>rel_rId = ''rId7'', is_external = True, target_ref = ''http://example.org/a''\<rparr>]
     = Inr []"
proof -
  let ?im = "[(''rId4'', \<lparr>filename = ''doc_0.png'', content = [], content_type = ''image/png''\<rparr>)]"
  let ?rs = "[\<lparr>rel_rId = ''rId7'', is_external = True, target_ref = ''http://example.org/a''\<rparr>]"
  have h1: "\<forall>(rId, info)\<in>set ?im. \<not> has_backslash (filename info)"
    by (simp add: has_backslash_def)
  have h2: "\<forall>rel\<in>set ?rs. is_external rel \<longrightarrow> plain_id (rel_rId rel) \<and> \<not> has_backslash (target_ref rel)"
    by (simp add: has_backslash_def plain_id_def is_word_char_def)
  have h3: "\<not> has_backslash ''doc_0.png'' \<and> plain_id ''rId7'' \<and> \<not> has_backslash ''http://example.org/a''"
    by (simp add: has_backslash_def plain_id_def is_word_char_def)
  show ?thesis
    using empty_input_gives_empty_text [of "\<lambda>p repl s n. Inl ReError" ?im ?rs] h1 h2 h3
    by blast
qed

text \<open>
  C8, as stated, fails: the conversion of the empty line sequence is not an error, it
  is the empty document.
\<close>

theorem empty_input_is_no_error:
  "\<not> isl (convert_core (\<lambda>p repl s n. Inl ReError) [] [] [])
   \<and> convert_core (\<lambda>p repl s n. Inl ReError) [] [] [] = Inr []"
  by (simp add: str_eval pipe_eval)

text \<open>
  C2, at a line that holds two image placeholders and with two images supplied: the
  second substitution starts at the \<^verbatim>\<open>![\<close> of the reference written by the first one
  (the lazy \<^verbatim>\<open>.*?\<close> runs over the closing bracket up to the next \<^verbatim>\<open>](data:image\<close>), so
  the reference to the first image is replaced together with the second placeholder,
  and the text refers to the second image only.
\<close>

theorem two_placeholders_on_a_line_lose_the_first:
  "resolve_images re_sub
     [(''rId4'', \<lparr>filename = ''doc_0.png'', content = [], content_type = ''image/png''\<rparr>),
      (''rId5'', \<lparr>filename = ''doc_1.png'', content = [], content_type = ''image/png''\<rparr>)]
     ''![a](data:image/png;base64,AA) ![b](data:image/png;base64,BB)''
   = Inr ''![Image](images/doc_1.png)''
   \<and> image_sub1 ''![Image](images/doc_0.png)''
       ''![a](data:image/png;base64,AA) ![b](data:image/png;base64,BB)''
   = ''![Image](images/doc_0.png) ![b](data:image/png;base64,BB)''
   \<and> convert_core re_sub [''![a](data:image/png;base64,AA) ![b](data:image/png;base64,BB)'']
       [(''rId4'', \<lparr>filename = ''doc_0.png'', content = [], content_type = ''image/png''\<rparr>),
        (''rId5'', \<lparr>filename = ''doc_1.png'', content = [], content_type = ''image/png''\<rparr>)]
       []
   = Inr (join_lines [''![Image](images/doc_1.png)'', ''<!-- Type: Image -->''])"
  by (simp add: str_eval pipe_eval)

section \<open>Classification of single lines\<close>

text \<open>
  C3, at the line \<^verbatim>\<open>**bold**\<close>: \<^verbatim>\<open>_is_list_item\<close> asks only for a leading marker, not for
  the blank after it, so the line is a list item for it and for \<^verbatim>\<open>_add_metadata\<close>,
  while the two list patterns declared in the class, which do ask for the blank, reject
  the line.
\<close>

theorem bold_line_is_list_item:
  "is_list_item ''**bold**''
   \<and> add_metadata ''**bold**'' False = ([''**bold**''], Some ''list_item'')
   \<and> \<not> LIST_BULLET_PATTERN ''**bold**'' \<and> \<not> LIST_NUMBER_PATTERN ''**bold**''"
  by (simp add: str_eval pipe_eval LIST_BULLET_PATTERN_def LIST_NUMBER_PATTERN_def)

text \<open>
  C4, at the separator row \<^verbatim>\<open>| --- | --- |\<close>: \<^verbatim>\<open>_add_metadata\<close> looks for the substring
  \<^verbatim>\<open>-|-\<close>, which a separator with blanks around its pipes does not have, so the row
  is a plain table row and no \<^verbatim>\<open>Type: Table\<close> comment is written, while the separator
  pattern declared in the class matches the row.
\<close>

theorem spaced_separator_is_table_row:
  "add_metadata ''| --- | --- |'' False = ([''| --- | --- |''], Some ''table_row'')
   \<and> TABLE_SEPARATOR_PATTERN ''| --- | --- |''
   \<and> convert_core re_sub [''| a | b |'', ''| --- | --- |'', ''| 1 | 2 |''] [] []
     = Inr (join_lines [''| a | b |'', ''| --- | --- |'', ''| 1 | 2 |'', []])"
  by (simp add: str_eval pipe_eval separator_here_def)

end
